theory Spec2Isabelle
  imports Main "HOL-Library.Word"
begin

unbundle bit_operations_syntax

section \<open>Common types\<close>

text \<open>
  The embedding is sequential: an atomic load, store or read-modify-write is the
  plain operation on the stored value, and a block guarded by the queue mutex is one
  step.  The target is a 64-bit little-endian host (ABSL_IS_BIG_ENDIAN undefined), so
  \<open>size_t\<close>, \<open>uintptr_t\<close> and \<open>cordz_info_t\<close> are 64-bit words.

  \<open>assert\<close> and \<open>ABSL_ASSERT\<close> abort the process unless the translation unit
  is compiled with NDEBUG; every function that contains one takes the build flag
  \<open>ndebug\<close> as its first argument.  Undefined behaviour that the modelled code
  can reach (dereferencing a null or dangling pointer, copying past a buffer) is an
  error value of its own.
\<close>

type_synonym size_t = "64 word"
type_synonym uint8_t = "8 word"
type_synonym int8_t = "8 word"
type_synonym int32_t = "32 word"
type_synonym addr = nat
type_synonym pointer = "addr option"

datatype error = AssertionFailure | InvalidPointer | OutOfBounds

section \<open>cord_internal.h: CordRepKind\<close>

definition SUBSTRING :: uint8_t where "SUBSTRING = 1"
definition EXTERNAL :: uint8_t where "EXTERNAL = 5"
definition FLAT :: uint8_t where "FLAT = 6"
definition MAX_FLAT_TAG :: uint8_t where "MAX_FLAT_TAG = 248"

section \<open>cord_rep_flat.h: the size-class codec\<close>

definition kMinFlatSize :: size_t where "kMinFlatSize = 32"
definition kMaxLargeFlatSize :: size_t where "kMaxLargeFlatSize = 256 * 1024"
definition kTagBase :: uint8_t where "kTagBase = FLAT - 4"

text \<open>
  \<open>AllocatedSizeToTagUnchecked\<close>: \<open>kTagBase\<close> is promoted and added to a
  \<open>size_t\<close>, so the sum is computed in \<open>size_t\<close> and then cut to eight bits.
\<close>

definition AllocatedSizeToTagUnchecked :: "size_t \<Rightarrow> uint8_t" where
  "AllocatedSizeToTagUnchecked sz =
     ucast (if sz \<le> 512 then ucast kTagBase + sz div 8
            else if sz \<le> 8192 then ucast kTagBase + 512 div 8 + sz div 64 - 512 div 64
            else ucast kTagBase + 512 div 8 + ((8192 - 512) div 64) + sz div 4096
                   - 8192 div 4096)"

text \<open>
  \<open>TagToAllocatedSize\<close>: \<open>tag\<close> and \<open>kTagBase\<close> are promoted to \<open>int\<close>
  (no value of a \<open>uint8_t\<close> overflows the expression), and the result is converted to
  \<open>size_t\<close> on return.
\<close>

definition TagToAllocatedSize :: "uint8_t \<Rightarrow> size_t" where
  "TagToAllocatedSize tag =
     word_of_int
       (if uint tag \<le> uint kTagBase + 512 div 8 then uint tag * 8 - uint kTagBase * 8
        else if uint tag \<le> uint kTagBase + (512 div 8) + ((8192 - 512) div 64)
        then 512 + uint tag * 64 - uint kTagBase * 64 - 512 div 8 * 64
        else 8192 + uint tag * 4096 - uint kTagBase * 4096
               - ((512 div 8) + ((8192 - 512) div 64)) * 4096)"

definition RoundUp :: "size_t \<Rightarrow> size_t \<Rightarrow> size_t" where
  "RoundUp n m = (n + m - 1) AND (0 - m)"

definition RoundUpForTag :: "size_t \<Rightarrow> size_t" where
  "RoundUpForTag sz = RoundUp sz (if sz \<le> 512 then 8 else (if sz \<le> 8192 then 64 else 4096))"

definition AllocatedSizeToTag :: "bool \<Rightarrow> size_t \<Rightarrow> error + uint8_t" where
  "AllocatedSizeToTag ndebug sz =
     (let tag = AllocatedSizeToTagUnchecked sz in
      if \<not> ndebug \<and> \<not> tag \<le> MAX_FLAT_TAG then Inl AssertionFailure else Inr tag)"

text \<open>
  The allocation sizes the three bands can express, read off the comment on
  \<open>CordRepKind\<close>: multiples of 8 in [32, 512], of 64 in (512, 8 KiB], of 4 KiB in
  (8 KiB, 256 KiB].
\<close>

definition representable_size :: "size_t \<Rightarrow> bool" where
  "representable_size sz =
     (if sz \<le> 512 then kMinFlatSize \<le> sz \<and> sz mod 8 = 0
      else if sz \<le> 8192 then sz mod 64 = 0
      else sz \<le> kMaxLargeFlatSize \<and> sz mod 4096 = 0)"

section \<open>cord_internal.h: RefcountAndFlags\<close>

text \<open>The member \<open>count_\<close> is written \<open>count\<close>: a name cannot end in an underscore here.\<close>

record RefcountAndFlags =
  count :: int32_t

definition kNumFlags :: nat where "kNumFlags = 1"
definition kImmortalFlag :: int32_t where "kImmortalFlag = 1"
definition kRefIncrement :: int32_t where "kRefIncrement = push_bit kNumFlags 1"

definition RefcountAndFlags_default :: RefcountAndFlags where
  "RefcountAndFlags_default = \<lparr>count = kRefIncrement\<rparr>"

definition RefcountAndFlags_Immortal :: RefcountAndFlags where
  "RefcountAndFlags_Immortal = \<lparr>count = kImmortalFlag\<rparr>"

definition Increment :: "RefcountAndFlags \<Rightarrow> RefcountAndFlags" where
  "Increment r = r\<lparr>count := count r + kRefIncrement\<rparr>"

text \<open>
  \<open>Decrement\<close>: the \<open>&&\<close> short-circuits, so the \<open>fetch_sub\<close> runs only when the
  loaded value differs from \<open>kRefIncrement\<close>; it returns the value before the
  subtraction.
\<close>

definition Decrement :: "bool \<Rightarrow> RefcountAndFlags \<Rightarrow> error + (bool \<times> RefcountAndFlags)" where
  "Decrement ndebug r =
     (let refcount = count r in
      if \<not> ndebug \<and> \<not> (0 <s refcount \<or> refcount AND kImmortalFlag \<noteq> 0)
      then Inl AssertionFailure
      else if refcount \<noteq> kRefIncrement
      then (let old = count r; r' = r\<lparr>count := old - kRefIncrement\<rparr>
            in Inr (old \<noteq> kRefIncrement, r'))
      else Inr (False, r))"

definition DecrementExpectHighRefcount ::
    "bool \<Rightarrow> RefcountAndFlags \<Rightarrow> error + (bool \<times> RefcountAndFlags)" where
  "DecrementExpectHighRefcount ndebug r =
     (let refcount = count r; r' = r\<lparr>count := refcount - kRefIncrement\<rparr> in
      if \<not> ndebug \<and> \<not> (0 <s refcount \<or> refcount AND kImmortalFlag \<noteq> 0)
      then Inl AssertionFailure
      else Inr (refcount \<noteq> kRefIncrement, r'))"

text \<open>\<open>Get\<close>: the signed count shifted right arithmetically, converted to \<open>size_t\<close>.\<close>

definition Get :: "RefcountAndFlags \<Rightarrow> size_t" where
  "Get r = scast (signed_drop_bit kNumFlags (count r))"

definition IsOne :: "RefcountAndFlags \<Rightarrow> bool" where
  "IsOne r = (count r = kRefIncrement)"

definition IsImmortal :: "RefcountAndFlags \<Rightarrow> bool" where
  "IsImmortal r = (count r AND kImmortalFlag \<noteq> 0)"

text \<open>
  \<open>n\<close> calls of \<open>Decrement\<close> in a row on one counter: the last call's result and
  the counter after it (\<open>True\<close> for no call at all).
\<close>

fun Decrement_times :: "bool \<Rightarrow> nat \<Rightarrow> RefcountAndFlags \<Rightarrow> error + (bool \<times> RefcountAndFlags)" where
  "Decrement_times ndebug 0 r = Inr (True, r)"
| "Decrement_times ndebug (Suc n) r =
     (case Decrement_times ndebug n r of
        Inl e \<Rightarrow> Inl e
      | Inr (b, r') \<Rightarrow> Decrement ndebug r')"

section \<open>cord_internal.h: CordRep and CordRepSubstring\<close>

text \<open>
  Nodes live in a heap that is a list: the address of a node is its index, \<open>new\<close>
  appends a node, and a pointer is \<open>None\<close> (\<open>nullptr\<close>) or \<open>Some\<close> address.
  The record holds the members of \<open>CordRep\<close> that the modelled functions use
  (\<open>length\<close>, written \<open>length_rep\<close>, \<open>refcount\<close>, \<open>tag\<close>) and the two members
  \<open>CordRepSubstring\<close> adds (\<open>start\<close>, \<open>child\<close>), which the code reads only after
  \<open>IsSubstring()\<close>.
\<close>

record CordRep =
  length_rep :: size_t
  refcount :: RefcountAndFlags
  tag :: uint8_t
  start :: size_t
  child :: pointer

type_synonym heap = "CordRep list"

definition IsSubstring :: "CordRep \<Rightarrow> bool" where
  "IsSubstring rep = (tag rep = SUBSTRING)"

definition IsExternal :: "CordRep \<Rightarrow> bool" where
  "IsExternal rep = (tag rep = EXTERNAL)"

definition IsFlat :: "CordRep \<Rightarrow> bool" where
  "IsFlat rep = (FLAT \<le> tag rep)"

definition deref :: "heap \<Rightarrow> pointer \<Rightarrow> CordRep option" where
  "deref h p = (case p of None \<Rightarrow> None | Some a \<Rightarrow> if a < length h then Some (h ! a) else None)"

text \<open>
  \<open>CordRep::Ref\<close>: increments the count of \<open>rep\<close> and returns \<open>rep\<close>.
  \<open>ABSL_ASSUME(rep != nullptr)\<close> is an \<open>assert\<close> unless NDEBUG is defined, and a
  promise to the compiler otherwise.
\<close>

definition Ref :: "bool \<Rightarrow> heap \<Rightarrow> pointer \<Rightarrow> error + (heap \<times> pointer)" where
  "Ref ndebug h rep =
     (if \<not> ndebug \<and> \<not> rep \<noteq> None then Inl AssertionFailure
      else case deref h rep of
        None \<Rightarrow> Inl InvalidPointer
      | Some r \<Rightarrow> Inr (h[the rep := r\<lparr>refcount := Increment (refcount r)\<rparr>], rep))"

text \<open>
  \<open>new CordRepSubstring()\<close>: the object is value-initialised, so every member is zero
  but \<open>refcount\<close>, which its default constructor sets to \<open>kRefIncrement\<close>.
\<close>

definition CordRepSubstring_new :: CordRep where
  "CordRepSubstring_new =
     \<lparr>length_rep = 0, refcount = RefcountAndFlags_default, tag = 0, start = 0, child = None\<rparr>"

definition Substring :: "bool \<Rightarrow> heap \<Rightarrow> pointer \<Rightarrow> size_t \<Rightarrow> size_t \<Rightarrow> error + (heap \<times> pointer)" where
  "Substring ndebug h rep pos n =
     (if \<not> ndebug \<and> \<not> rep \<noteq> None then Inl AssertionFailure
      else if \<not> ndebug \<and> \<not> n \<noteq> 0 then Inl AssertionFailure
      else case deref h rep of
        None \<Rightarrow> Inl InvalidPointer
      | Some r \<Rightarrow>
          if \<not> ndebug \<and> \<not> pos < length_rep r then Inl AssertionFailure
          else if \<not> ndebug \<and> \<not> n \<le> length_rep r - pos then Inl AssertionFailure
          else if n = length_rep r then Ref ndebug h rep
          else
            let (pos', rep') = (if IsSubstring r then (pos + start r, child r) else (pos, rep));
                substr = length h;
                h1 = h @ [CordRepSubstring_new\<lparr>length_rep := n, tag := SUBSTRING, start := pos'\<rparr>]
            in case Ref ndebug h1 rep' of
                 Inl e \<Rightarrow> Inl e
               | Inr (h2, c) \<Rightarrow> Inr (h2[substr := (h2 ! substr)\<lparr>child := c\<rparr>], Some substr))"

section \<open>cordz_handle.cc: CordzHandle and the global delete queue\<close>

text \<open>
  The members \<open>is_snapshot_\<close>, \<open>dq_prev_\<close> and \<open>dq_next_\<close> are written without the
  final underscore.  The global state is the store of the handles that are alive
  (allocated and not yet freed), by address, and \<open>GlobalQueue().dq_tail\<close>.
\<close>

record CordzHandle =
  is_snapshot :: bool
  dq_prev :: pointer
  dq_next :: pointer

record queue_state =
  handles :: "addr \<rightharpoonup> CordzHandle"
  dq_tail :: pointer

text \<open>
  A function that walks the links may not return on a store whose links form a cycle;
  such a function has a result of type \<open>option\<close>, \<open>None\<close> meaning that it does not
  return.  \<open>then_do\<close> sequences two such steps, stopping at the first that fails.
\<close>

definition then_do :: "(error + 'a) option \<Rightarrow> ('a \<Rightarrow> (error + 'b) option) \<Rightarrow> (error + 'b) option" where
  "then_do m f = (case m of None \<Rightarrow> None | Some (Inl e) \<Rightarrow> Some (Inl e) | Some (Inr x) \<Rightarrow> f x)"

text \<open>\<open>a->field = v\<close>: a write through a pointer, undefined when nothing lives at \<open>a\<close>.\<close>

definition store_field :: "queue_state \<Rightarrow> addr \<Rightarrow> (CordzHandle \<Rightarrow> CordzHandle) \<Rightarrow> error + queue_state" where
  "store_field st a f =
     (case handles st a of
        None \<Rightarrow> Inl InvalidPointer
      | Some n \<Rightarrow> Inr (st\<lparr>handles := (handles st)(a \<mapsto> f n)\<rparr>))"

definition free_handle :: "queue_state \<Rightarrow> addr \<Rightarrow> queue_state" where
  "free_handle st a = st\<lparr>handles := (handles st)(a := None)\<rparr>"

definition IsEmpty :: "queue_state \<Rightarrow> bool" where
  "IsEmpty st = (dq_tail st = None)"

text \<open>
  The constructor runs on the storage at \<open>this\<close>: the default member initialisers set
  both links to \<open>nullptr\<close>, then a snapshot appends itself to the queue.
\<close>

definition CordzHandle_ctor :: "queue_state \<Rightarrow> addr \<Rightarrow> bool \<Rightarrow> error + queue_state" where
  "CordzHandle_ctor st this snapshot =
     (let st0 = st\<lparr>handles := (handles st)(this \<mapsto>
                  \<lparr>is_snapshot = snapshot, dq_prev = None, dq_next = None\<rparr>)\<rparr>
      in if snapshot then
           (case (case dq_tail st0 of
                    Some t \<Rightarrow>
                      (case store_field st0 this (\<lambda>n. n\<lparr>dq_prev := Some t\<rparr>) of
                         Inl e \<Rightarrow> Inl e
                       | Inr st1 \<Rightarrow> store_field st1 t (\<lambda>n. n\<lparr>dq_next := Some this\<rparr>))
                  | None \<Rightarrow> Inr st0) of
              Inl e \<Rightarrow> Inl e
            | Inr st2 \<Rightarrow> Inr (st2\<lparr>dq_tail := Some this\<rparr>))
         else Inr st0)"

text \<open>
  The loop of the destructor:
  \<open>while (next && !next->is_snapshot_) { to_delete.push_back(next); next = next->dq_next_; }\<close>
\<close>

partial_function (option) collect_to_delete ::
    "(addr \<rightharpoonup> CordzHandle) \<Rightarrow> addr list \<Rightarrow> pointer \<Rightarrow> (error + addr list \<times> pointer) option" where
  "collect_to_delete hs to_delete next =
     (case next of
        None \<Rightarrow> Some (Inr (to_delete, next))
      | Some a \<Rightarrow>
          (case hs a of
             None \<Rightarrow> Some (Inl InvalidPointer)
           | Some n \<Rightarrow>
               if \<not> is_snapshot n then collect_to_delete hs (to_delete @ [a]) (dq_next n)
               else Some (Inr (to_delete, next))))"

text \<open>
  The end of the destructor, after the branch on \<open>dq_prev_\<close>: relink \<open>next\<close> or move the
  tail, leave the mutex, and \<open>delete\<close> every collected handle.  A collected handle is
  not a snapshot, so its own destructor does nothing and \<open>delete\<close> only frees it.
\<close>

definition dtor_finish :: "queue_state \<Rightarrow> CordzHandle \<Rightarrow> addr list \<Rightarrow> pointer \<Rightarrow> error + queue_state" where
  "dtor_finish st me to_delete next =
     (case (case next of
              Some nx \<Rightarrow> store_field st nx (\<lambda>n. n\<lparr>dq_prev := dq_prev me\<rparr>)
            | None \<Rightarrow> Inr (st\<lparr>dq_tail := dq_prev me\<rparr>)) of
        Inl e \<Rightarrow> Inl e
      | Inr st' \<Rightarrow> Inr (fold (\<lambda>handle s. free_handle s handle) to_delete st'))"

definition CordzHandle_dtor :: "queue_state \<Rightarrow> addr \<Rightarrow> (error + queue_state) option" where
  "CordzHandle_dtor st this =
     (case handles st this of
        None \<Rightarrow> Some (Inl InvalidPointer)
      | Some me \<Rightarrow>
          if is_snapshot me then
            (case dq_prev me of
               None \<Rightarrow>
                 then_do (collect_to_delete (handles st) [] (dq_next me))
                   (\<lambda>(to_delete, next). Some (dtor_finish st me to_delete next))
             | Some p \<Rightarrow>
                 then_do (Some (store_field st p (\<lambda>n. n\<lparr>dq_next := dq_next me\<rparr>)))
                   (\<lambda>st1. Some (dtor_finish st1 me [] (dq_next me))))
          else Some (Inr st))"

text \<open>The expression \<open>delete handle\<close>: the destructor, then the storage is freed.\<close>

definition delete_handle :: "queue_state \<Rightarrow> addr \<Rightarrow> (error + queue_state) option" where
  "delete_handle st a = then_do (CordzHandle_dtor st a) (\<lambda>st'. Some (Inr (free_handle st' a)))"

definition SafeToDelete :: "queue_state \<Rightarrow> CordzHandle \<Rightarrow> bool" where
  "SafeToDelete st me = (is_snapshot me \<or> IsEmpty st)"

definition Delete :: "bool \<Rightarrow> queue_state \<Rightarrow> pointer \<Rightarrow> (error + queue_state) option" where
  "Delete ndebug st handle =
     (if \<not> ndebug \<and> handle = None then Some (Inl AssertionFailure)
      else case handle of
        None \<Rightarrow> Some (Inr st)
      | Some h \<Rightarrow>
          (case handles st h of
             None \<Rightarrow> Some (Inl InvalidPointer)
           | Some hn \<Rightarrow>
               if \<not> SafeToDelete st hn then
                 (case dq_tail st of
                    Some t \<Rightarrow>
                      Some (case store_field st h (\<lambda>n. n\<lparr>dq_prev := Some t\<rparr>) of
                              Inl e \<Rightarrow> Inl e
                            | Inr st1 \<Rightarrow>
                                (case store_field st1 t (\<lambda>n. n\<lparr>dq_next := Some h\<rparr>) of
                                   Inl e \<Rightarrow> Inl e
                                 | Inr st2 \<Rightarrow> Inr (st2\<lparr>dq_tail := Some h\<rparr>)))
                  | None \<Rightarrow> delete_handle st h)
               else delete_handle st h))"

text \<open>\<open>for (const CordzHandle* p = dq_tail; p; p = p->dq_prev_) handles.push_back(p);\<close>\<close>

partial_function (option) walk_prev ::
    "(addr \<rightharpoonup> CordzHandle) \<Rightarrow> addr list \<Rightarrow> pointer \<Rightarrow> (error + addr list) option" where
  "walk_prev hs acc p =
     (case p of
        None \<Rightarrow> Some (Inr acc)
      | Some a \<Rightarrow>
          (case hs a of
             None \<Rightarrow> Some (Inl InvalidPointer)
           | Some n \<Rightarrow> walk_prev hs (acc @ [a]) (dq_prev n)))"

definition DiagnosticsGetDeleteQueue :: "queue_state \<Rightarrow> (error + addr list) option" where
  "DiagnosticsGetDeleteQueue st = walk_prev (handles st) [] (dq_tail st)"

text \<open>
  The loop of \<open>DiagnosticsHandleIsSafeToInspect\<close>.  Its result is \<open>(Some b, _)\<close> when
  the loop returns \<open>b\<close> from the function, and \<open>(None, snapshot_found)\<close> when it runs to
  the end of the list.
\<close>

partial_function (option) inspect_loop ::
    "(addr \<rightharpoonup> CordzHandle) \<Rightarrow> addr \<Rightarrow> addr \<Rightarrow> bool \<Rightarrow> pointer \<Rightarrow> (error + bool option \<times> bool) option" where
  "inspect_loop hs this handle snapshot_found p =
     (case p of
        None \<Rightarrow> Some (Inr (None, snapshot_found))
      | Some a \<Rightarrow>
          if a = handle then Some (Inr (Some (\<not> snapshot_found), snapshot_found))
          else (case hs a of
                  None \<Rightarrow> Some (Inl InvalidPointer)
                | Some n \<Rightarrow>
                    inspect_loop hs this handle (if a = this then True else snapshot_found)
                      (dq_prev n)))"

definition DiagnosticsHandleIsSafeToInspect ::
    "bool \<Rightarrow> queue_state \<Rightarrow> addr \<Rightarrow> pointer \<Rightarrow> (error + bool) option" where
  "DiagnosticsHandleIsSafeToInspect ndebug st this handle =
     (case handles st this of
        None \<Rightarrow> Some (Inl InvalidPointer)
      | Some me \<Rightarrow>
          if \<not> is_snapshot me then Some (Inr False)
          else case handle of
            None \<Rightarrow> Some (Inr True)
          | Some h \<Rightarrow>
              (case handles st h of
                 None \<Rightarrow> Some (Inl InvalidPointer)
               | Some hn \<Rightarrow>
                   if is_snapshot hn then Some (Inr False)
                   else then_do (inspect_loop (handles st) this h False (dq_tail st))
                     (\<lambda>(returned, snapshot_found).
                        case returned of
                          Some b \<Rightarrow> Some (Inr b)
                        | None \<Rightarrow>
                            if \<not> ndebug \<and> \<not> snapshot_found then Some (Inl AssertionFailure)
                            else Some (Inr True))))"

text \<open>
  \<open>for (const CordzHandle* p = dq_next_; p != nullptr; p = p->dq_next_)
       if (!p->is_snapshot()) handles.push_back(p);\<close>
\<close>

partial_function (option) walk_next ::
    "(addr \<rightharpoonup> CordzHandle) \<Rightarrow> addr list \<Rightarrow> pointer \<Rightarrow> (error + addr list) option" where
  "walk_next hs acc p =
     (case p of
        None \<Rightarrow> Some (Inr acc)
      | Some a \<Rightarrow>
          (case hs a of
             None \<Rightarrow> Some (Inl InvalidPointer)
           | Some n \<Rightarrow> walk_next hs (if \<not> is_snapshot n then acc @ [a] else acc) (dq_next n)))"

definition DiagnosticsGetSafeToInspectDeletedHandles ::
    "queue_state \<Rightarrow> addr \<Rightarrow> (error + addr list) option" where
  "DiagnosticsGetSafeToInspectDeletedHandles st this =
     (case handles st this of
        None \<Rightarrow> Some (Inl InvalidPointer)
      | Some me \<Rightarrow>
          if \<not> is_snapshot me then Some (Inr [])
          else walk_next (handles st) [] (dq_next me))"

text \<open>
  A state of the delete queue: \<open>delete_queue st xs\<close> says that the handles at the
  addresses \<open>xs\<close>, all different, are linked in this order from the head (the oldest
  entry, with no \<open>dq_prev_\<close>) to the tail (\<open>dq_tail\<close>, with no \<open>dq_next_\<close>).
\<close>

fun dq_linked :: "(addr \<rightharpoonup> CordzHandle) \<Rightarrow> pointer \<Rightarrow> addr list \<Rightarrow> bool" where
  "dq_linked hs prv [] = True"
| "dq_linked hs prv (x # xs) =
     (case hs x of
        None \<Rightarrow> False
      | Some n \<Rightarrow>
          dq_prev n = prv \<and> dq_next n = (case xs of [] \<Rightarrow> None | y # ys \<Rightarrow> Some y) \<and>
          dq_linked hs (Some x) xs)"

definition delete_queue :: "queue_state \<Rightarrow> addr list \<Rightarrow> bool" where
  "delete_queue st xs =
     (distinct xs \<and> dq_linked (handles st) None xs \<and>
      dq_tail st = (if xs = [] then None else Some (last xs)))"

definition snapshot_at :: "queue_state \<Rightarrow> addr \<Rightarrow> bool" where
  "snapshot_at st a = (case handles st a of None \<Rightarrow> False | Some n \<Rightarrow> is_snapshot n)"

text \<open>
  What the specification says \<open>DiagnosticsGetSafeToInspectDeletedHandles\<close> returns for a
  snapshot followed in the queue by the entries \<open>after\<close>: the handles up to the next
  snapshot, and none beyond it.  This definition follows the specification, not the
  code.
\<close>

definition spec_handles_up_to_next_snapshot :: "queue_state \<Rightarrow> addr list \<Rightarrow> addr list" where
  "spec_handles_up_to_next_snapshot st after = takeWhile (\<lambda>a. \<not> snapshot_at st a) after"

text \<open>
  A queue with two snapshots, used as test input: the state after a snapshot is
  constructed at address 1, a handle constructed at 2 and passed to \<open>Delete\<close>, a
  second snapshot constructed at 3, and a handle constructed at 4 and passed to
  \<open>Delete\<close>, all starting from the empty queue.  \<open>DiagnosticsGetDeleteQueue\<close>
  lists it as 4, 3, 2, 1.
\<close>

definition empty_queue :: queue_state where
  "empty_queue = \<lparr>handles = Map.empty, dq_tail = None\<rparr>"

definition two_snapshot_queue :: queue_state where
  "two_snapshot_queue =
     \<lparr>handles = [1 \<mapsto> \<lparr>is_snapshot = True, dq_prev = None, dq_next = Some 2\<rparr>,
                 2 \<mapsto> \<lparr>is_snapshot = False, dq_prev = Some 1, dq_next = Some 3\<rparr>,
                 3 \<mapsto> \<lparr>is_snapshot = True, dq_prev = Some 2, dq_next = Some 4\<rparr>,
                 4 \<mapsto> \<lparr>is_snapshot = False, dq_prev = Some 3, dq_next = None\<rparr>],
      dq_tail = Some 4\<rparr>"

section \<open>cord_internal.h: InlineData\<close>

text \<open>
  \<open>InlineData::Rep\<close> is a union of \<open>char data[kMaxInline + 1]\<close> and
  \<open>AsTree {cordz_info_t cordz_info; CordRep* rep;}\<close>; the model is the sixteen bytes
  of \<open>data\<close>, \<open>cordz_info\<close> being the bytes 0 to 7 and \<open>rep\<close> the bytes 8 to 15, each
  read and written as a little-endian 64-bit value.  Pointers to \<open>CordRep\<close> and to
  \<open>CordzInfo\<close> are kept as the 64-bit values stored (\<open>nullptr\<close> is 0).  \<open>InlineData\<close>
  has the single member \<open>rep_\<close> and is modelled by it; the sanitizer hooks
  (\<open>poison\<close>, \<open>unpoison\<close>) change no byte and are left out.
\<close>

type_synonym byte = "8 word"
type_synonym Rep = "byte list"
type_synonym InlineData = Rep
type_synonym cordz_info_t = "64 word"
type_synonym uintptr_t = "64 word"

definition kMaxInline :: nat where "kMaxInline = 15"

definition store64 :: "64 word \<Rightarrow> byte list" where
  "store64 w = map (\<lambda>i. ucast (drop_bit (8 * i) w)) [0..<8]"

definition load64 :: "byte list \<Rightarrow> 64 word" where
  "load64 bs = foldr (\<lambda>b w. ucast b OR push_bit 8 w) bs 0"

text \<open>\<open>memcpy(mem + off, bs, length bs)\<close> and \<open>memset\<close>, inside \<open>mem\<close>.\<close>

definition write_bytes :: "byte list \<Rightarrow> nat \<Rightarrow> byte list \<Rightarrow> byte list" where
  "write_bytes mem off bs = take off mem @ bs @ drop (off + length bs) mem"

definition LittleEndianByte :: "byte \<Rightarrow> cordz_info_t" where
  "LittleEndianByte v = ucast v"

definition kNullCordzInfo :: cordz_info_t where
  "kNullCordzInfo = LittleEndianByte 1"

definition Rep_tag :: "Rep \<Rightarrow> int8_t" where
  "Rep_tag r = r ! 0"

definition Rep_set_tag :: "Rep \<Rightarrow> int8_t \<Rightarrow> Rep" where
  "Rep_set_tag r rhs = r[0 := rhs]"

definition Rep_as_chars :: "Rep \<Rightarrow> byte list" where
  "Rep_as_chars r = drop 1 r"

definition Rep_is_tree :: "Rep \<Rightarrow> bool" where
  "Rep_is_tree r = (Rep_tag r AND 1 \<noteq> 0)"

definition Rep_inline_size :: "bool \<Rightarrow> Rep \<Rightarrow> error + size_t" where
  "Rep_inline_size ndebug r =
     (if \<not> ndebug \<and> \<not> \<not> Rep_is_tree r then Inl AssertionFailure
      else Inr (drop_bit 1 (scast (Rep_tag r))))"

definition Rep_tree :: "Rep \<Rightarrow> uintptr_t" where
  "Rep_tree r = load64 (take 8 (drop 8 r))"

definition Rep_set_tree :: "Rep \<Rightarrow> uintptr_t \<Rightarrow> Rep" where
  "Rep_set_tree r rhs = write_bytes r 8 (store64 rhs)"

definition Rep_cordz_info :: "Rep \<Rightarrow> cordz_info_t" where
  "Rep_cordz_info r = load64 (take 8 r)"

definition Rep_set_cordz_info :: "Rep \<Rightarrow> cordz_info_t \<Rightarrow> Rep" where
  "Rep_set_cordz_info r rhs = write_bytes r 0 (store64 rhs)"

definition Rep_make_tree :: "Rep \<Rightarrow> uintptr_t \<Rightarrow> Rep" where
  "Rep_make_tree r tree = Rep_set_cordz_info (Rep_set_tree r tree) kNullCordzInfo"

text \<open>\<open>Rep(CordRep* rep) : as_tree(rep)\<close>, with \<open>cordz_info = kNullCordzInfo\<close>.\<close>

definition Rep_of_tree :: "uintptr_t \<Rightarrow> Rep" where
  "Rep_of_tree tree = store64 kNullCordzInfo @ store64 tree"

text \<open>
  \<open>SmallMemmove<true>(dst, src, n)\<close>, where \<open>dst\<close> is the part of the object from the
  destination pointer to its end and \<open>src\<close> holds the \<open>n\<close> bytes to copy.  With
  \<open>n > 15\<close> and no assertion the last \<open>memcpy\<close> writes past the object.
\<close>

definition SmallMemmove_nullify_tail :: "bool \<Rightarrow> byte list \<Rightarrow> byte list \<Rightarrow> nat \<Rightarrow> error + byte list" where
  "SmallMemmove_nullify_tail ndebug dst src n =
     (if n \<ge> 8 then
        (if \<not> n \<le> 15 then (if ndebug then Inl OutOfBounds else Inl AssertionFailure)
         else
           let buf1 = take 8 src;
               buf2 = take 8 (drop (n - 8) src);
               dst = write_bytes dst 7 (replicate 8 0);
               dst = write_bytes dst 0 buf1;
               dst = write_bytes dst (n - 8) buf2
           in Inr dst)
      else if n \<ge> 4 then
        (let buf1 = take 4 src;
             buf2 = take 4 (drop (n - 4) src);
             dst = write_bytes dst 4 (replicate 4 0);
             dst = write_bytes dst 7 (replicate 8 0);
             dst = write_bytes dst 0 buf1;
             dst = write_bytes dst (n - 4) buf2
         in Inr dst)
      else
        (let dst = (if n \<noteq> 0
                    then dst[0 := src ! 0, n div 2 := src ! (n div 2), n - 1 := src ! (n - 1)]
                    else dst);
             dst = write_bytes dst 7 (replicate 8 0);
             dst = write_bytes dst n (replicate 8 0)
         in Inr dst))"

definition InlineData_of_tree :: "bool \<Rightarrow> uintptr_t \<Rightarrow> error + InlineData" where
  "InlineData_of_tree ndebug rep =
     (let d = Rep_of_tree rep in
      if \<not> ndebug \<and> \<not> rep \<noteq> 0 then Inl AssertionFailure else Inr d)"

definition is_tree :: "InlineData \<Rightarrow> bool" where
  "is_tree d = (Rep_tag d AND 1 \<noteq> 0)"

definition is_profiled :: "bool \<Rightarrow> InlineData \<Rightarrow> error + bool" where
  "is_profiled ndebug d =
     (if \<not> ndebug \<and> \<not> is_tree d then Inl AssertionFailure
      else Inr (Rep_cordz_info d \<noteq> kNullCordzInfo))"

definition is_either_profiled :: "bool \<Rightarrow> InlineData \<Rightarrow> InlineData \<Rightarrow> error + bool" where
  "is_either_profiled ndebug data1 data2 =
     (if \<not> ndebug \<and> \<not> (is_tree data1 \<and> is_tree data2) then Inl AssertionFailure
      else Inr ((Rep_cordz_info data1 OR Rep_cordz_info data2) \<noteq> kNullCordzInfo))"

definition set_cordz_info :: "bool \<Rightarrow> InlineData \<Rightarrow> uintptr_t \<Rightarrow> error + InlineData" where
  "set_cordz_info ndebug d cordz_info =
     (if \<not> ndebug \<and> \<not> is_tree d then Inl AssertionFailure
      else (let info = cordz_info OR 1 in Inr (Rep_set_cordz_info d info)))"

definition clear_cordz_info :: "bool \<Rightarrow> InlineData \<Rightarrow> error + InlineData" where
  "clear_cordz_info ndebug d =
     (if \<not> ndebug \<and> \<not> is_tree d then Inl AssertionFailure
      else Inr (Rep_set_cordz_info d kNullCordzInfo))"

text \<open>\<open>as_chars() const\<close>: the bytes from \<open>data + 1\<close> to the end of the object.\<close>

definition as_chars :: "bool \<Rightarrow> InlineData \<Rightarrow> error + byte list" where
  "as_chars ndebug d =
     (if \<not> ndebug \<and> \<not> \<not> is_tree d then Inl AssertionFailure else Inr (Rep_as_chars d))"

definition as_tree :: "bool \<Rightarrow> InlineData \<Rightarrow> error + uintptr_t" where
  "as_tree ndebug d =
     (if \<not> ndebug \<and> \<not> is_tree d then Inl AssertionFailure else Inr (Rep_tree d))"

text \<open>
  \<open>set_inline_data(data, n)\<close>: \<open>src\<close> is the array that \<open>data\<close> points to; reading \<open>n\<close>
  bytes from a shorter array is out of bounds.
\<close>

definition set_inline_data :: "bool \<Rightarrow> InlineData \<Rightarrow> byte list \<Rightarrow> size_t \<Rightarrow> error + InlineData" where
  "set_inline_data ndebug d src n =
     (if \<not> ndebug \<and> \<not> unat n \<le> kMaxInline then Inl AssertionFailure
      else if length src < unat n then Inl OutOfBounds
      else
        let d = Rep_set_tag d (ucast (push_bit 1 n)) in
        case SmallMemmove_nullify_tail ndebug (Rep_as_chars d) src (unat n) of
          Inl e \<Rightarrow> Inl e
        | Inr chars \<Rightarrow> Inr (write_bytes d 1 chars))"

definition make_tree :: "InlineData \<Rightarrow> uintptr_t \<Rightarrow> InlineData" where
  "make_tree d rep = Rep_make_tree d rep"

definition set_tree :: "bool \<Rightarrow> InlineData \<Rightarrow> uintptr_t \<Rightarrow> error + InlineData" where
  "set_tree ndebug d rep =
     (if \<not> ndebug \<and> \<not> is_tree d then Inl AssertionFailure else Inr (Rep_set_tree d rep))"

definition inline_size :: "bool \<Rightarrow> InlineData \<Rightarrow> error + size_t" where
  "inline_size ndebug d = Rep_inline_size ndebug d"

text \<open>
  The operations that write \<open>cordz_info\<close>, and a run of them on one \<open>InlineData\<close>: the
  first error ends the run.
\<close>

datatype tree_op = MakeTree uintptr_t | SetCordzInfo uintptr_t | ClearCordzInfo | SetTree uintptr_t

fun apply_tree_op :: "bool \<Rightarrow> InlineData \<Rightarrow> tree_op \<Rightarrow> error + InlineData" where
  "apply_tree_op ndebug d (MakeTree rep) = Inr (make_tree d rep)"
| "apply_tree_op ndebug d (SetCordzInfo info) = set_cordz_info ndebug d info"
| "apply_tree_op ndebug d ClearCordzInfo = clear_cordz_info ndebug d"
| "apply_tree_op ndebug d (SetTree rep) = set_tree ndebug d rep"

fun apply_tree_ops :: "bool \<Rightarrow> InlineData \<Rightarrow> tree_op list \<Rightarrow> error + InlineData" where
  "apply_tree_ops ndebug d [] = Inr d"
| "apply_tree_ops ndebug d (x # xs) =
     (case apply_tree_op ndebug d x of
        Inl e \<Rightarrow> Inl e
      | Inr d' \<Rightarrow> apply_tree_ops ndebug d' xs)"

section \<open>Properties of the size-class codec\<close>

lemma and_neg_pow2:
  fixes x :: "'a::len word"
  shows "x AND - (2 ^ n) = push_bit n (drop_bit n x)"
  by (simp add: minus_exp_eq_not_mask bit_eq_iff bit_simps) (auto simp: bit_simps)

lemma unat_push_drop:
  fixes x :: "'a::len word"
  shows "unat (push_bit n (drop_bit n x)) = unat x div 2 ^ n * 2 ^ n"
proof -
  have le: "unat x div 2 ^ n * 2 ^ n \<le> unat x" by simp
  have "unat x < 2 ^ LENGTH('a)" by (rule unsigned_less)
  with le have lt: "unat x div 2 ^ n * 2 ^ n < 2 ^ LENGTH('a)" by linarith
  have "unat (push_bit n (drop_bit n x)) = take_bit LENGTH('a) (push_bit n (drop_bit n (unat x)))"
    by (simp add: unsigned_push_bit_eq unat_drop_bit_eq)
  also have "\<dots> = take_bit LENGTH('a) (unat x div 2 ^ n * 2 ^ n)"
    by (simp add: push_bit_eq_mult drop_bit_eq_div mult.commute)
  also have "\<dots> = unat x div 2 ^ n * 2 ^ n"
    using lt by (simp add: take_bit_nat_eq_self)
  finally show ?thesis .
qed

lemma unat_RoundUp:
  fixes s :: size_t
  assumes "unat s + 2 ^ n < 2 ^ 64" "n < 64"
  shows "unat (RoundUp s (2 ^ n)) = ((unat s + 2 ^ n - 1) div 2 ^ n) * 2 ^ n"
proof -
  have e: "s + 2 ^ n - 1 = s + mask n" by (simp add: mask_eq_exp_minus_1)
  have "uint (mask n :: size_t) = 2 ^ n - 1"
    using assms(2) by (simp only: uint_mask_eq) (simp add: mask_eq_exp_minus_1 min_def)
  then have "int (unat (mask n :: size_t)) = int (2 ^ n - 1)"
    by (simp add: of_nat_diff)
  then have m: "unat (mask n :: size_t) = 2 ^ n - 1"
    by (simp only: of_nat_eq_iff)
  have "unat s + unat (mask n :: size_t) < 2 ^ LENGTH(64)"
    using assms(1) m by simp
  then have "unat (s + mask n) = unat s + unat (mask n :: size_t)"
    by (simp only: unat_add_lem)
  then have "unat (s + mask n) = unat s + 2 ^ n - 1"
    unfolding m by simp
  then have a: "unat (s + 2 ^ n - 1) = unat s + 2 ^ n - 1"
    by (simp only: e)
  have "RoundUp s (2 ^ n) = push_bit n (drop_bit n (s + 2 ^ n - 1))"
    by (simp add: RoundUp_def and_neg_pow2)
  then show ?thesis using a by (simp only: unat_push_drop)
qed

lemma TagToAllocatedSize_of_nat:
  assumes "2 \<le> unat t"
  shows "TagToAllocatedSize t = of_nat
    (if unat t \<le> 66 then unat t * 8 - 16
     else if unat t \<le> 186 then unat t * 64 - 3712 else unat t * 4096 - 753664)"
proof -
  have u: "uint t = int (unat t)" by simp
  have e1: "int (unat t) * 8 - 16 = int (unat t * 8 - 16)" using assms by linarith
  have e2: "unat t > 66 \<Longrightarrow> 512 + int (unat t) * 64 - 128 - 4096 = int (unat t * 64 - 3712)" by linarith
  have e3: "unat t > 186 \<Longrightarrow> 8192 + int (unat t) * 4096 - 8192 - 753664 = int (unat t * 4096 - 753664)" by linarith
  show ?thesis
    unfolding TagToAllocatedSize_def kTagBase_def FLAT_def u
    using e1 e2 e3
    by (simp del: of_nat_unat of_nat_diff of_nat_mult)
qed

lemma unat_TagToAllocatedSize:
  assumes "2 \<le> unat t"
  shows "unat (TagToAllocatedSize t) =
    (if unat t \<le> 66 then unat t * 8 - 16
     else if unat t \<le> 186 then unat t * 64 - 3712 else unat t * 4096 - 753664)"
proof -
  have b: "unat t < 256" using unsigned_less [of t, where ?'a = nat] by simp
  let ?m = "(if unat t \<le> 66 then unat t * 8 - 16
     else if unat t \<le> 186 then unat t * 64 - 3712 else unat t * 4096 - 753664)"
  have "?m < 2 ^ LENGTH(64)" using b by auto
  then have "unat (of_nat ?m :: size_t) = ?m" by (simp only: unat_of_nat mod_less)
  then show ?thesis by (simp only: TagToAllocatedSize_of_nat [OF assms])
qed

lemma unat_AllocatedSizeToTagUnchecked:
  assumes "unat s \<le> 262144"
  shows "unat (AllocatedSizeToTagUnchecked s) =
    (if unat s \<le> 512 then 2 + unat s div 8
     else if unat s \<le> 8192 then 58 + unat s div 64
     else 184 + unat s div 4096) mod 256"
proof -
  have k: "ucast kTagBase = (2 :: size_t)" by (simp add: kTagBase_def FLAT_def)
  have c1: "s \<le> 512 \<longleftrightarrow> unat s \<le> 512" by (simp add: word_le_nat_alt)
  have c2: "s \<le> 8192 \<longleftrightarrow> unat s \<le> 8192" by (simp add: word_le_nat_alt)
  have b1: "unat (2 + s div 8) = 2 + unat s div 8"
    using assms by (simp add: unat_word_ariths unat_div)
  have b2: "unat (2 + 512 div 8 + s div 64 - 512 div 64) = 58 + unat s div 64"
    using assms by (simp add: unat_word_ariths unat_div)
  have b3: "unat (2 + 512 div 8 + ((8192 - 512) div 64) + s div 4096 - 8192 div 4096) = 184 + unat s div 4096"
    using assms by (simp add: unat_word_ariths unat_div)
  show ?thesis
    unfolding AllocatedSizeToTagUnchecked_def k c1 c2
    using b1 b2 b3
    by (simp add: unsigned_ucast_eq take_bit_eq_mod del: )
qed


lemma representable_size_unat:
  "representable_size sz \<longleftrightarrow>
     (if unat sz \<le> 512 then 32 \<le> unat sz \<and> unat sz mod 8 = 0
      else if unat sz \<le> 8192 then unat sz mod 64 = 0
      else unat sz \<le> 262144 \<and> unat sz mod 4096 = 0)"
proof -
  have m: "sz mod 8 = 0 \<longleftrightarrow> unat sz mod 8 = 0" "sz mod 64 = 0 \<longleftrightarrow> unat sz mod 64 = 0"
    "sz mod 4096 = 0 \<longleftrightarrow> unat sz mod 4096 = 0"
    by (simp_all add: word_unat_eq_iff unat_mod)
  show ?thesis
    unfolding representable_size_def m
    by (simp add: word_le_nat_alt kMinFlatSize_def kMaxLargeFlatSize_def)
qed

lemma RoundUpForTag_representable:
  assumes "representable_size sz"
  shows "RoundUpForTag sz = sz"
proof -
  let ?n = "unat sz"
  have r: "if ?n \<le> 512 then 32 \<le> ?n \<and> ?n mod 8 = 0
      else if ?n \<le> 8192 then ?n mod 64 = 0 else ?n \<le> 262144 \<and> ?n mod 4096 = 0"
    using assms by (simp only: representable_size_unat)
  have b: "?n \<le> 262144" using r by (auto split: if_splits)
  have u8: "unat (RoundUp sz 8) = (?n + 7) div 8 * 8"
    using unat_RoundUp [of sz 3] b by simp
  have u64: "unat (RoundUp sz 64) = (?n + 63) div 64 * 64"
    using unat_RoundUp [of sz 6] b by simp
  have u4096: "unat (RoundUp sz 4096) = (?n + 4095) div 4096 * 4096"
    using unat_RoundUp [of sz 12] b by simp
  have "unat (RoundUpForTag sz) = ?n"
    unfolding RoundUpForTag_def using r u8 u64 u4096
    by (auto simp: word_le_nat_alt split: if_splits)
  then show ?thesis by (simp only: word_unat_eq_iff)
qed

lemma AllocatedSizeToTagUnchecked_representable:
  assumes "representable_size sz"
  shows "FLAT \<le> AllocatedSizeToTagUnchecked sz \<and> AllocatedSizeToTagUnchecked sz \<le> MAX_FLAT_TAG
     \<and> TagToAllocatedSize (AllocatedSizeToTagUnchecked sz) = sz"
proof -
  let ?n = "unat sz"
  let ?t = "AllocatedSizeToTagUnchecked sz"
  have r: "if ?n \<le> 512 then 32 \<le> ?n \<and> ?n mod 8 = 0
      else if ?n \<le> 8192 then ?n mod 64 = 0 else ?n \<le> 262144 \<and> ?n mod 4096 = 0"
    using assms by (simp only: representable_size_unat)
  have b: "?n \<le> 262144" using r by (auto split: if_splits)
  have t: "unat ?t = (if ?n \<le> 512 then 2 + ?n div 8
     else if ?n \<le> 8192 then 58 + ?n div 64 else 184 + ?n div 4096)"
    using unat_AllocatedSizeToTagUnchecked [OF b] b by (auto split: if_splits)
  have lo: "6 \<le> unat ?t" using t r by (auto split: if_splits)
  have hi: "unat ?t \<le> 248" using t r b by (auto split: if_splits)
  have "unat (TagToAllocatedSize ?t) = ?n"
    using unat_TagToAllocatedSize [of ?t] lo t r by (auto split: if_splits)
  then have "TagToAllocatedSize ?t = sz" by (simp only: word_unat_eq_iff)
  then show ?thesis using lo hi by (simp add: word_le_nat_alt FLAT_def MAX_FLAT_TAG_def)
qed

lemma TagToAllocatedSize_flat_tag:
  assumes "FLAT \<le> t" "t \<le> MAX_FLAT_TAG"
  shows "representable_size (TagToAllocatedSize t) \<and> AllocatedSizeToTagUnchecked (TagToAllocatedSize t) = t"
proof -
  let ?k = "unat t"
  let ?s = "TagToAllocatedSize t"
  have lo: "6 \<le> ?k" and hi: "?k \<le> 248"
    using assms by (simp_all add: word_le_nat_alt FLAT_def MAX_FLAT_TAG_def)
  have s: "unat ?s = (if ?k \<le> 66 then ?k * 8 - 16
     else if ?k \<le> 186 then ?k * 64 - 3712 else ?k * 4096 - 753664)"
    using unat_TagToAllocatedSize [of t] lo by simp
  consider (a) "?k \<le> 66" | (b) "66 < ?k" "?k \<le> 186" | (c) "186 < ?k" by linarith
  then have "representable_size ?s \<and> unat (AllocatedSizeToTagUnchecked ?s) = ?k"
  proof cases
    case a
    then have v: "unat ?s = ?k * 8 - 16" using s by simp
    have "?k * 8 - 16 = (?k - 2) * 8" using lo by linarith
    then have m: "(?k * 8 - 16) mod 8 = 0" "(?k * 8 - 16) div 8 = ?k - 2"
      by simp_all
    have r: "32 \<le> ?k * 8 - 16" "?k * 8 - 16 \<le> 512" using lo a by linarith+
    have "unat ?s \<le> 262144" using v r by linarith
    from unat_AllocatedSizeToTagUnchecked [OF this] show ?thesis
      unfolding representable_size_unat v using m r lo a by simp
  next
    case b
    then have v: "unat ?s = ?k * 64 - 3712" using s by simp
    have "?k * 64 - 3712 = (?k - 58) * 64" using b by linarith
    then have m: "(?k * 64 - 3712) mod 64 = 0" "(?k * 64 - 3712) div 64 = ?k - 58"
      by simp_all
    have r: "512 < ?k * 64 - 3712" "?k * 64 - 3712 \<le> 8192" using b by linarith+
    have "unat ?s \<le> 262144" using v r by linarith
    from unat_AllocatedSizeToTagUnchecked [OF this] show ?thesis
      unfolding representable_size_unat v using m r b by simp
  next
    case c
    then have v: "unat ?s = ?k * 4096 - 753664" using s by simp
    have "?k * 4096 - 753664 = (?k - 184) * 4096" using c by linarith
    then have m: "(?k * 4096 - 753664) mod 4096 = 0" "(?k * 4096 - 753664) div 4096 = ?k - 184"
      by simp_all
    have r: "8192 < ?k * 4096 - 753664" "?k * 4096 - 753664 \<le> 262144" using c hi by linarith+
    from unat_AllocatedSizeToTagUnchecked [OF r(2) [folded v]] show ?thesis
      unfolding representable_size_unat v using m r c hi by simp
  qed
  then show ?thesis by (simp only: word_unat_eq_iff)
qed

text \<open>
  C2.  For every flat tag \<open>t\<close> (\<open>FLAT \<le> t \<le> MAX_FLAT_TAG\<close>) the allocated size of
  \<open>t\<close> is a representable size, \<open>RoundUpForTag\<close> leaves it unchanged, and
  \<open>AllocatedSizeToTag\<close> maps it (rounded or not) back to \<open>t\<close>.  Conversely, on
  every representable size of the three bands \<open>RoundUpForTag\<close> is the identity and
  \<open>AllocatedSizeToTag\<close> yields a flat tag whose allocated size is the size given:
  the two conversions are exact inverses.  Both hold with and without NDEBUG.
\<close>

theorem size_class_round_trip:
  "(FLAT \<le> t \<and> t \<le> MAX_FLAT_TAG \<longrightarrow>
      representable_size (TagToAllocatedSize t) \<and>
      RoundUpForTag (TagToAllocatedSize t) = TagToAllocatedSize t \<and>
      AllocatedSizeToTag ndebug (TagToAllocatedSize t) = Inr t \<and>
      AllocatedSizeToTag ndebug (RoundUpForTag (TagToAllocatedSize t)) = Inr t) \<and>
   (representable_size sz \<longrightarrow>
      RoundUpForTag sz = sz \<and>
      (\<exists>t'. AllocatedSizeToTag ndebug sz = Inr t' \<and> FLAT \<le> t' \<and> t' \<le> MAX_FLAT_TAG \<and>
            TagToAllocatedSize t' = sz))"
proof (intro conjI impI)
  assume a: "FLAT \<le> t \<and> t \<le> MAX_FLAT_TAG"
  then have r: "representable_size (TagToAllocatedSize t)"
    and i: "AllocatedSizeToTagUnchecked (TagToAllocatedSize t) = t"
    using TagToAllocatedSize_flat_tag [of t] by simp_all
  show "representable_size (TagToAllocatedSize t)" by (rule r)
  show ru: "RoundUpForTag (TagToAllocatedSize t) = TagToAllocatedSize t"
    by (rule RoundUpForTag_representable [OF r])
  show at: "AllocatedSizeToTag ndebug (TagToAllocatedSize t) = Inr t"
    using a i by (simp add: AllocatedSizeToTag_def)
  show "AllocatedSizeToTag ndebug (RoundUpForTag (TagToAllocatedSize t)) = Inr t"
    by (simp only: ru at)
next
  assume r: "representable_size sz"
  show "RoundUpForTag sz = sz" by (rule RoundUpForTag_representable [OF r])
  show "\<exists>t'. AllocatedSizeToTag ndebug sz = Inr t' \<and> FLAT \<le> t' \<and> t' \<le> MAX_FLAT_TAG \<and>
            TagToAllocatedSize t' = sz"
    using AllocatedSizeToTagUnchecked_representable [OF r]
    by (simp add: AllocatedSizeToTag_def)
qed

theorem size_class_round_trip_witness:
  "FLAT \<le> 100 \<and> (100 :: uint8_t) \<le> MAX_FLAT_TAG \<and> TagToAllocatedSize 100 = 2688 \<and>
   representable_size 2688 \<and> RoundUpForTag 2688 = 2688 \<and>
   AllocatedSizeToTag False 2688 = Inr 100 \<and>
   AllocatedSizeToTag False (RoundUpForTag (TagToAllocatedSize 100)) = Inr 100"
proof -
  have h: "FLAT \<le> 100 \<and> (100 :: uint8_t) \<le> MAX_FLAT_TAG"
    by (simp add: FLAT_def MAX_FLAT_TAG_def)
  have v: "TagToAllocatedSize 100 = 2688"
    by (simp add: TagToAllocatedSize_def kTagBase_def FLAT_def)
  show ?thesis
    using h v size_class_round_trip [of 100 False 2688] by simp
qed

section \<open>Properties of RefcountAndFlags\<close>

lemma kRefIncrement_eq: "kRefIncrement = 2"
  by (simp add: kRefIncrement_def kNumFlags_def)

lemma IsImmortal_odd: "IsImmortal r \<longleftrightarrow> odd (count r)"
  by (simp add: IsImmortal_def kImmortalFlag_def and_one_eq mod_2_eq_odd)

lemma even_sint: "even (sint (w :: int32_t)) \<longleftrightarrow> even w"
  using bit_sint_iff [of w 0] by (simp add: bit_0)

lemma Get_eq_1: "Get r = 1 \<longleftrightarrow> sint (count r) div 2 = 1"
proof -
  have "Get r = 1 \<longleftrightarrow> sint (Get r) = sint (1 :: size_t)"
    by (rule word_eq_iff_signed)
  also have "sint (Get r) = sint (signed_drop_bit 1 (count r))"
    unfolding Get_def kNumFlags_def by (rule sint_up_scast) (simp add: is_up)
  also have "\<dots> = sint (count r) div 2"
    by (simp add: sint_signed_drop_bit_eq drop_bit_eq_div)
  finally show ?thesis by simp
qed

lemma count_eq_2: "count r = 2 \<longleftrightarrow> sint (count r) = 2"
proof -
  have "count r = 2 \<longleftrightarrow> sint (count r) = sint (2 :: int32_t)"
    by (rule word_eq_iff_signed)
  then show ?thesis by simp
qed

lemma IsOne_iff: "IsOne r \<longleftrightarrow> Get r = 1 \<and> \<not> IsImmortal r"
proof -
  have "sint (count r) = 2 \<longleftrightarrow> sint (count r) div 2 = 1 \<and> even (sint (count r))"
    by presburger
  then show ?thesis
    by (simp add: IsOne_def kRefIncrement_eq count_eq_2 Get_eq_1 IsImmortal_odd even_sint)
qed

lemma assert_live: "kRefIncrement \<le>s c \<Longrightarrow> 0 <s c"
  by (simp add: kRefIncrement_eq word_sle_eq word_sless_alt)

lemma Decrement_live:
  assumes "kRefIncrement \<le>s count r"
  shows "Decrement ndebug r =
     Inr (\<not> IsOne r, if IsOne r then r else r\<lparr>count := count r - kRefIncrement\<rparr>)"
  using assert_live [OF assms] by (simp add: Decrement_def IsOne_def Let_def)

lemma DecrementExpectHighRefcount_live:
  assumes "kRefIncrement \<le>s count r"
  shows "DecrementExpectHighRefcount ndebug r =
     Inr (\<not> IsOne r, r\<lparr>count := count r - kRefIncrement\<rparr>)"
  using assert_live [OF assms] by (simp add: DecrementExpectHighRefcount_def IsOne_def Let_def)

lemma Decrement_immortal:
  assumes "IsImmortal r"
  shows "Decrement ndebug r = Inr (True, r\<lparr>count := count r - kRefIncrement\<rparr>)
    \<and> IsImmortal (r\<lparr>count := count r - kRefIncrement\<rparr>)"
proof -
  have o: "odd (count r)" using assms by (simp add: IsImmortal_odd)
  have ne: "count r \<noteq> kRefIncrement"
  proof
    assume "count r = kRefIncrement"
    then have "even (count r)" by (simp add: kRefIncrement_eq)
    with o show False by simp
  qed
  from o have "odd (count r - kRefIncrement)" by (simp add: kRefIncrement_eq)
  then have i: "IsImmortal (r\<lparr>count := count r - kRefIncrement\<rparr>)"
    by (simp add: IsImmortal_odd)
  have "count r AND kImmortalFlag \<noteq> 0" using assms by (simp add: IsImmortal_def)
  then show ?thesis using ne i by (simp add: Decrement_def Let_def)
qed

lemma Decrement_times_immortal:
  assumes "IsImmortal r"
  shows "\<exists>r'. Decrement_times ndebug n r = Inr (True, r') \<and> IsImmortal r'"
proof (induction n)
  case 0
  show ?case using assms by simp
next
  case (Suc n)
  then obtain r' where s: "Decrement_times ndebug n r = Inr (True, r')" and i: "IsImmortal r'"
    by blast
  show ?case using s Decrement_immortal [OF i, of ndebug] by simp
qed

text \<open>
  C6.  On a counter that holds at least one reference unit (\<open>kRefIncrement \<le> count_\<close>
  as signed values) \<open>Decrement\<close> and \<open>DecrementExpectHighRefcount\<close> return, in
  either build, and return \<open>false\<close> exactly when the live count \<open>Get()\<close> was one
  and the immortal flag was clear; \<open>DecrementExpectHighRefcount\<close> returns \<open>false\<close>
  exactly when it leaves the stored count at zero.  On a counter constructed with
  \<open>Immortal\<close>, every call of \<open>Decrement\<close> returns \<open>true\<close>, whatever the number
  of calls before it (32-bit wrap-around included).
\<close>

theorem Decrement_false_iff_last_reference:
  "(kRefIncrement \<le>s count r \<longrightarrow>
      (\<exists>b r'. Decrement ndebug r = Inr (b, r') \<and> (\<not> b \<longleftrightarrow> Get r = 1 \<and> \<not> IsImmortal r)) \<and>
      (\<exists>b r'. DecrementExpectHighRefcount ndebug r = Inr (b, r') \<and>
          (\<not> b \<longleftrightarrow> Get r = 1 \<and> \<not> IsImmortal r) \<and> (\<not> b \<longleftrightarrow> count r' = 0))) \<and>
   (\<exists>r'. Decrement_times ndebug (Suc n) RefcountAndFlags_Immortal = Inr (True, r'))"
proof (intro conjI impI)
  assume a: "kRefIncrement \<le>s count r"
  show "\<exists>b r'. Decrement ndebug r = Inr (b, r') \<and> (\<not> b \<longleftrightarrow> Get r = 1 \<and> \<not> IsImmortal r)"
    by (simp add: Decrement_live [OF a] IsOne_iff)
  show "\<exists>b r'. DecrementExpectHighRefcount ndebug r = Inr (b, r') \<and>
          (\<not> b \<longleftrightarrow> Get r = 1 \<and> \<not> IsImmortal r) \<and> (\<not> b \<longleftrightarrow> count r' = 0)"
    by (simp add: DecrementExpectHighRefcount_live [OF a] IsOne_iff [symmetric])
       (simp add: IsOne_def)
next
  have "IsImmortal RefcountAndFlags_Immortal"
    by (simp add: IsImmortal_def RefcountAndFlags_Immortal_def kImmortalFlag_def)
  from Decrement_times_immortal [OF this, of ndebug "Suc n"]
  show "\<exists>r'. Decrement_times ndebug (Suc n) RefcountAndFlags_Immortal = Inr (True, r')"
    by blast
qed


theorem Decrement_false_iff_last_reference_witness:
  "kRefIncrement \<le>s count RefcountAndFlags_default \<and>
   Decrement False RefcountAndFlags_default = Inr (False, RefcountAndFlags_default) \<and>
   (\<exists>b r'. DecrementExpectHighRefcount False RefcountAndFlags_default = Inr (b, r') \<and>
       (\<not> b \<longleftrightarrow> Get RefcountAndFlags_default = 1 \<and> \<not> IsImmortal RefcountAndFlags_default) \<and>
       (\<not> b \<longleftrightarrow> count r' = 0)) \<and>
   (\<exists>r'. Decrement_times False (Suc 3) RefcountAndFlags_Immortal = Inr (True, r'))"
proof -
  have h: "kRefIncrement \<le>s count RefcountAndFlags_default"
    by (simp add: RefcountAndFlags_default_def)
  have d: "Decrement False RefcountAndFlags_default = Inr (False, RefcountAndFlags_default)"
    by (simp add: Decrement_def RefcountAndFlags_default_def kRefIncrement_eq kImmortalFlag_def
        word_sless_alt)
  show ?thesis
    using h d Decrement_false_iff_last_reference [of RefcountAndFlags_default False 3]
    by blast
qed

text \<open>
  C7, as stated, fails: after one \<open>Increment\<close> an immortal counter stores 3, its
  live count \<open>Get()\<close> is one, and \<open>IsOne()\<close> is false, as the comment on
  \<open>IsOne\<close> announces ("Always returns false when the immortal bit is set").
\<close>

theorem IsOne_immortal_counterexample:
  "Get (Increment RefcountAndFlags_Immortal) = 1 \<and>
   IsImmortal (Increment RefcountAndFlags_Immortal) \<and>
   \<not> IsOne (Increment RefcountAndFlags_Immortal)"
  by (simp add: Get_eq_1 IsImmortal_def IsOne_def Increment_def RefcountAndFlags_Immortal_def
      kRefIncrement_eq kImmortalFlag_def)

text \<open>
  C7, amended.  For every counter state, \<open>IsOne()\<close> is true if and only if the live
  count \<open>Get()\<close> is one and the immortal flag is clear.
\<close>

theorem IsOne_iff_one_mortal_reference:
  "IsOne r \<longleftrightarrow> Get r = 1 \<and> \<not> IsImmortal r"
  by (rule IsOne_iff)

theorem IsOne_iff_one_mortal_reference_witness:
  "IsOne RefcountAndFlags_default \<and> Get RefcountAndFlags_default = 1 \<and>
   \<not> IsImmortal RefcountAndFlags_default"
proof -
  have "IsOne RefcountAndFlags_default" by (simp add: IsOne_def RefcountAndFlags_default_def)
  then show ?thesis
    using IsOne_iff_one_mortal_reference [of RefcountAndFlags_default] by simp
qed

section \<open>Properties of CordRepSubstring::Substring\<close>

lemma deref_Some: "deref h (Some a) = Some r \<longleftrightarrow> a < length h \<and> h ! a = r"
  by (auto simp: deref_def)

lemma Ref_valid:
  assumes "deref h (Some a) = Some r"
  shows "Ref ndebug h (Some a) = Inr (h[a := r\<lparr>refcount := Increment (refcount r)\<rparr>], Some a)"
  using assms by (simp add: Ref_def)

lemma Substring_partial:
  assumes r: "deref h (Some a) = Some r"
    and n: "n \<noteq> 0" "pos < length_rep r" "n \<le> length_rep r - pos" "n \<noteq> length_rep r"
    and t: "(if IsSubstring r then (pos + start r, child r) else (pos, Some a)) = (pos', Some c)"
    and c: "deref h (Some c) = Some cn"
  shows "Substring ndebug h (Some a) pos n =
     Inr (h[c := cn\<lparr>refcount := Increment (refcount cn)\<rparr>] @
            [\<lparr>length_rep = n, refcount = RefcountAndFlags_default, tag = SUBSTRING,
              start = pos', child = Some c\<rparr>],
          Some (length h))"
proof -
  let ?node = "CordRepSubstring_new\<lparr>length_rep := n, tag := SUBSTRING, start := pos'\<rparr>"
  have c': "deref (h @ [?node]) (Some c) = Some cn"
    using c by (auto simp: deref_Some nth_append)
  have "Substring ndebug h (Some a) pos n =
     (case Ref ndebug (h @ [?node]) (Some c) of
        Inl e \<Rightarrow> Inl e
      | Inr (h2, c) \<Rightarrow> Inr (h2[length h := (h2 ! length h)\<lparr>child := c\<rparr>], Some (length h)))"
    unfolding Substring_def using r n t by (simp add: Let_def)
  also have "\<dots> = Inr (h[c := cn\<lparr>refcount := Increment (refcount cn)\<rparr>] @
            [\<lparr>length_rep = n, refcount = RefcountAndFlags_default, tag = SUBSTRING,
              start = pos', child = Some c\<rparr>], Some (length h))"
    by (simp only: Ref_valid [OF c'])
       (use c in \<open>simp add: deref_Some list_update_append CordRepSubstring_new_def nth_append\<close>)
  finally show ?thesis .
qed


lemma data_edge_not_substring: "IsExternal cn \<or> IsFlat cn \<Longrightarrow> \<not> IsSubstring cn"
  by (auto simp: IsExternal_def IsFlat_def IsSubstring_def EXTERNAL_def FLAT_def SUBSTRING_def word_le_nat_alt)

lemma Substring_of_substring_node:
  assumes s: "deref h (Some s) = Some sn" "IsSubstring sn" "child sn = Some c"
    and c: "deref h (Some c) = Some cn" "IsExternal cn \<or> IsFlat cn"
    and n: "n \<noteq> 0" "n < length_rep sn" "unat pos + unat n \<le> unat (length_rep sn)"
  shows "\<exists>h' r node cn'. Substring ndebug h (Some s) pos n = Inr (h', Some r) \<and>
      r = length h \<and> length h' = Suc (length h) \<and>
      deref h' (Some r) = Some node \<and> IsSubstring node \<and> child node = Some c \<and>
      start node = start sn + pos \<and> length_rep node = n \<and>
      deref h' (Some c) = Some cn' \<and> \<not> IsSubstring cn'"
proof -
  have n0: "0 < unat n" using n(1) by (simp add: unat_gt_0)
  have p: "pos < length_rep sn" using n(3) n0 by (simp add: word_less_nat_alt)
  have "unat (length_rep sn - pos) = unat (length_rep sn) - unat pos"
    using p by (simp add: unat_sub word_le_nat_alt word_less_nat_alt)
  then have l: "n \<le> length_rep sn - pos" using n(3) by (simp add: word_le_nat_alt)
  have ne: "n \<noteq> length_rep sn" using n(2) by simp
  have t: "(if IsSubstring sn then (pos + start sn, child sn) else (pos, Some s))
      = (pos + start sn, Some c)" using s by simp
  have cl: "c < length h" using c(1) by (simp add: deref_Some)
  show ?thesis
    using data_edge_not_substring [OF c(2)] cl
    by (simp add: Substring_partial [OF s(1) n(1) p l ne t c(1)] deref_Some nth_append
        IsSubstring_def add.commute)
qed

lemma Substring_of_data_edge:
  assumes c: "deref h (Some c) = Some cn" "IsExternal cn \<or> IsFlat cn"
    and n: "n \<noteq> 0" "n < length_rep cn" "unat pos + unat n \<le> unat (length_rep cn)"
  shows "Substring ndebug h (Some c) pos n =
     Inr (h[c := cn\<lparr>refcount := Increment (refcount cn)\<rparr>] @
            [\<lparr>length_rep = n, refcount = RefcountAndFlags_default, tag = SUBSTRING,
              start = pos, child = Some c\<rparr>],
          Some (length h))"
proof -
  have n0: "0 < unat n" using n(1) by (simp add: unat_gt_0)
  have p: "pos < length_rep cn" using n(3) n0 by (simp add: word_less_nat_alt)
  have "unat (length_rep cn - pos) = unat (length_rep cn) - unat pos"
    using p by (simp add: unat_sub word_le_nat_alt word_less_nat_alt)
  then have l: "n \<le> length_rep cn - pos" using n(3) by (simp add: word_le_nat_alt)
  have ne: "n \<noteq> length_rep cn" using n(2) by simp
  have t: "(if IsSubstring cn then (pos + start cn, child cn) else (pos, Some c))
      = (pos, Some c)" using data_edge_not_substring [OF c(2)] by simp
  show ?thesis by (rule Substring_partial [OF c(1) n(1) p l ne t c(1)])
qed


lemma Get_Increment:
  assumes "sint (count r) + 2 < 2 ^ 31"
  shows "Get (Increment r) = Get r + 1"
proof -
  have lo: "- 2147483648 \<le> sint (count r)" using sint_ge [of "count r"] by simp
  have hi: "sint (count r) < 2147483646" using assms by simp
  have a: "sint (count r + 2) = sint (count r) + 2"
    using lo hi by (simp add: sint_word_ariths signed_take_bit_int_eq_self)
  have g: "sint (Get x) = sint (count x) div 2" for x
  proof -
    have "sint (Get x) = sint (signed_drop_bit 1 (count x))"
      unfolding Get_def kNumFlags_def by (rule sint_up_scast) (simp add: is_up)
    then show ?thesis by (simp add: sint_signed_drop_bit_eq drop_bit_eq_div)
  qed
  have b1: "- 9223372036854775808 \<le> sint (count r) div 2 + 1" using lo by linarith
  have b2: "sint (count r) div 2 + 1 < 9223372036854775808" using hi by linarith
  have "sint (Get r + 1) = sint (count r) div 2 + 1"
    using b1 b2 by (simp add: sint_word_ariths g signed_take_bit_int_eq_self)
  moreover have "sint (Get (Increment r)) = sint (count r) div 2 + 1"
    by (simp add: g Increment_def kRefIncrement_eq a)
  ultimately show ?thesis by (simp add: word_eq_iff_signed [where ?'a = int])
qed

text \<open>
  C4.  Let \<open>s\<close> be a substring node whose child \<open>c\<close> is an external or flat node, and
  let \<open>0 < n < s.length\<close> and \<open>pos + n \<le> s.length\<close>.  Then \<open>Substring(s, pos, n)\<close>
  returns, in either build, a newly allocated substring node of length \<open>n\<close> whose
  child pointer is \<open>c\<close>, not a substring node, and whose start is \<open>s.start + pos\<close>.
  In particular, for an external or flat node \<open>c\<close> of length at least 15,
  \<open>Substring(Substring(c, 5, 10), 2, 3)\<close> is a substring node over \<open>c\<close> with start 7.
\<close>

theorem Substring_of_substring_rebases:
  "(deref h (Some s) = Some sn \<and> IsSubstring sn \<and> child sn = Some c \<and>
    deref h (Some c) = Some cn \<and> (IsExternal cn \<or> IsFlat cn) \<and>
    n \<noteq> 0 \<and> n < length_rep sn \<and> unat pos + unat n \<le> unat (length_rep sn) \<longrightarrow>
    (\<exists>h' r node cn'. Substring ndebug h (Some s) pos n = Inr (h', Some r) \<and>
        r = length h \<and> length h' = Suc (length h) \<and>
        deref h' (Some r) = Some node \<and> IsSubstring node \<and> child node = Some c \<and>
        start node = start sn + pos \<and> length_rep node = n \<and>
        deref h' (Some c) = Some cn' \<and> \<not> IsSubstring cn')) \<and>
   (deref h (Some c) = Some cn \<and> (IsExternal cn \<or> IsFlat cn) \<and> 15 \<le> length_rep cn \<longrightarrow>
    (\<exists>h1 s1 h2 r node cn'.
        Substring ndebug h (Some c) 5 10 = Inr (h1, Some s1) \<and>
        Substring ndebug h1 (Some s1) 2 3 = Inr (h2, Some r) \<and>
        deref h2 (Some r) = Some node \<and> IsSubstring node \<and> child node = Some c \<and>
        start node = 7 \<and> length_rep node = 3 \<and>
        deref h2 (Some c) = Some cn' \<and> \<not> IsSubstring cn'))"
proof (intro conjI impI)
  assume a: "deref h (Some s) = Some sn \<and> IsSubstring sn \<and> child sn = Some c \<and>
    deref h (Some c) = Some cn \<and> (IsExternal cn \<or> IsFlat cn) \<and>
    n \<noteq> 0 \<and> n < length_rep sn \<and> unat pos + unat n \<le> unat (length_rep sn)"
  then show "\<exists>h' r node cn'. Substring ndebug h (Some s) pos n = Inr (h', Some r) \<and>
        r = length h \<and> length h' = Suc (length h) \<and>
        deref h' (Some r) = Some node \<and> IsSubstring node \<and> child node = Some c \<and>
        start node = start sn + pos \<and> length_rep node = n \<and>
        deref h' (Some c) = Some cn' \<and> \<not> IsSubstring cn'"
    using Substring_of_substring_node [of h s sn c cn n pos ndebug] by blast
next
  assume a: "deref h (Some c) = Some cn \<and> (IsExternal cn \<or> IsFlat cn) \<and> 15 \<le> length_rep cn"
  let ?cn1 = "cn\<lparr>refcount := Increment (refcount cn)\<rparr>"
  let ?sn = "\<lparr>length_rep = 10, refcount = RefcountAndFlags_default, tag = SUBSTRING,
              start = 5, child = Some c\<rparr>"
  let ?h1 = "h[c := ?cn1] @ [?sn]"
  have cl: "c < length h" using a by (simp add: deref_Some)
  have l: "15 \<le> unat (length_rep cn)" using a by (simp add: word_le_nat_alt)
  have "(10 :: size_t) < length_rep cn" using l by (simp add: word_less_nat_alt)
  then have 1: "Substring ndebug h (Some c) 5 10 = Inr (?h1, Some (length h))"
    using a l by (intro Substring_of_data_edge) simp_all
  have 2: "deref ?h1 (Some (length h)) = Some ?sn" by (simp add: deref_Some nth_append)
  have 3: "deref ?h1 (Some c) = Some ?cn1" using cl by (simp add: deref_Some nth_append)
  have 4: "IsExternal ?cn1 \<or> IsFlat ?cn1" using a by (simp add: IsExternal_def IsFlat_def)
  have "\<exists>h' r node cn'. Substring ndebug ?h1 (Some (length h)) 2 3 = Inr (h', Some r) \<and>
      r = length ?h1 \<and> length h' = Suc (length ?h1) \<and>
      deref h' (Some r) = Some node \<and> IsSubstring node \<and> child node = Some c \<and>
      start node = start ?sn + 2 \<and> length_rep node = 3 \<and>
      deref h' (Some c) = Some cn' \<and> \<not> IsSubstring cn'"
    by (rule Substring_of_substring_node [OF 2 _ _ 3 4]) (simp_all add: IsSubstring_def)
  then show "\<exists>h1 s1 h2 r node cn'.
        Substring ndebug h (Some c) 5 10 = Inr (h1, Some s1) \<and>
        Substring ndebug h1 (Some s1) 2 3 = Inr (h2, Some r) \<and>
        deref h2 (Some r) = Some node \<and> IsSubstring node \<and> child node = Some c \<and>
        start node = 7 \<and> length_rep node = 3 \<and>
        deref h2 (Some c) = Some cn' \<and> \<not> IsSubstring cn'"
    using 1 by auto
qed

text \<open>
  C5.  For a valid node \<open>rep\<close> of non-zero length, \<open>Substring(rep, 0, rep->length)\<close>
  returns \<open>rep\<close> itself, in either build; the heap has the same nodes as before, none
  added, and differs only in the reference count of \<open>rep\<close>, which went through one
  \<open>Increment()\<close>: the stored count grew by \<open>kRefIncrement\<close>, and the live count
  \<open>Get()\<close> by one unless the 32-bit counter wraps.
\<close>

theorem Substring_full_range_adds_reference:
  "deref h (Some a) = Some r \<and> length_rep r \<noteq> 0 \<longrightarrow>
   (\<exists>h'. Substring ndebug h (Some a) 0 (length_rep r) = Inr (h', Some a) \<and>
      length h' = length h \<and>
      deref h' (Some a) = Some (r\<lparr>refcount := Increment (refcount r)\<rparr>) \<and>
      (\<forall>b. b \<noteq> a \<longrightarrow> deref h' (Some b) = deref h (Some b)) \<and>
      count (Increment (refcount r)) = count (refcount r) + kRefIncrement \<and>
      (sint (count (refcount r)) + 2 < 2 ^ 31 \<longrightarrow>
         Get (Increment (refcount r)) = Get (refcount r) + 1))"
proof
  assume a: "deref h (Some a) = Some r \<and> length_rep r \<noteq> 0"
  then have p: "0 < length_rep r" by (simp add: word_greater_zero_iff)
  let ?h' = "h[a := r\<lparr>refcount := Increment (refcount r)\<rparr>]"
  have al: "a < length h" using a by (simp add: deref_Some)
  have 1: "Substring ndebug h (Some a) 0 (length_rep r) = Inr (?h', Some a)"
    using a p by (simp add: Substring_def Ref_valid)
  have 2: "length ?h' = length h" by simp
  have 3: "deref ?h' (Some a) = Some (r\<lparr>refcount := Increment (refcount r)\<rparr>)"
    using al by (simp add: deref_Some)
  have 4: "\<forall>b. b \<noteq> a \<longrightarrow> deref ?h' (Some b) = deref h (Some b)"
    by (simp add: deref_def)
  have 5: "count (Increment (refcount r)) = count (refcount r) + kRefIncrement"
    by (simp add: Increment_def)
  have 6: "sint (count (refcount r)) + 2 < 2 ^ 31 \<longrightarrow>
         Get (Increment (refcount r)) = Get (refcount r) + 1"
    using Get_Increment [of "refcount r"] by blast
  show "\<exists>h'. Substring ndebug h (Some a) 0 (length_rep r) = Inr (h', Some a) \<and>
      length h' = length h \<and>
      deref h' (Some a) = Some (r\<lparr>refcount := Increment (refcount r)\<rparr>) \<and>
      (\<forall>b. b \<noteq> a \<longrightarrow> deref h' (Some b) = deref h (Some b)) \<and>
      count (Increment (refcount r)) = count (refcount r) + kRefIncrement \<and>
      (sint (count (refcount r)) + 2 < 2 ^ 31 \<longrightarrow>
         Get (Increment (refcount r)) = Get (refcount r) + 1)"
    using 1 2 3 4 5 6 by blast
qed


theorem Substring_of_substring_rebases_witness:
  "(\<exists>h' node. Substring False
        [\<lparr>length_rep = 20, refcount = Increment RefcountAndFlags_default, tag = FLAT,
           start = 0, child = None\<rparr>,
         \<lparr>length_rep = 10, refcount = RefcountAndFlags_default, tag = SUBSTRING,
           start = 5, child = Some 0\<rparr>] (Some 1) 2 3 = Inr (h', Some 2) \<and>
      deref h' (Some 2) = Some node \<and> IsSubstring node \<and> child node = Some 0 \<and>
      start node = 7 \<and> length_rep node = 3) \<and>
   (\<exists>h1 s1 h2 r node. Substring False
        [\<lparr>length_rep = 20, refcount = Increment RefcountAndFlags_default, tag = FLAT,
           start = 0, child = None\<rparr>,
         \<lparr>length_rep = 10, refcount = RefcountAndFlags_default, tag = SUBSTRING,
           start = 5, child = Some 0\<rparr>] (Some 0) 5 10 = Inr (h1, Some s1) \<and>
      Substring False h1 (Some s1) 2 3 = Inr (h2, Some r) \<and>
      deref h2 (Some r) = Some node \<and> child node = Some 0 \<and> start node = 7)"
  (is "?A \<and> ?B")
proof -
  let ?f = "\<lparr>length_rep = 20, refcount = Increment RefcountAndFlags_default, tag = FLAT,
           start = 0, child = None\<rparr>"
  let ?s = "\<lparr>length_rep = 10, refcount = RefcountAndFlags_default, tag = SUBSTRING,
           start = 5, child = Some 0\<rparr>"
  have 1: "deref [?f, ?s] (Some 1) = Some ?s \<and> IsSubstring ?s \<and> child ?s = Some 0 \<and>
    deref [?f, ?s] (Some 0) = Some ?f \<and> (IsExternal ?f \<or> IsFlat ?f) \<and>
    (3 :: size_t) \<noteq> 0 \<and> 3 < length_rep ?s \<and>
    unat (2 :: size_t) + unat (3 :: size_t) \<le> unat (length_rep ?s)"
    by (simp add: deref_def IsSubstring_def IsFlat_def)
  have 2: "deref [?f, ?s] (Some 0) = Some ?f \<and> (IsExternal ?f \<or> IsFlat ?f) \<and>
    15 \<le> length_rep ?f"
    by (simp add: deref_def IsFlat_def)
  from 1 2 Substring_of_substring_rebases [of "[?f, ?s]" 1 ?s 0 ?f 3 2 False]
  obtain h' r node where a: "Substring False [?f, ?s] (Some 1) 2 3 = Inr (h', Some r)"
      "r = length [?f, ?s]" "deref h' (Some r) = Some node" "IsSubstring node"
      "child node = Some 0" "start node = start ?s + 2" "length_rep node = 3"
    by blast
  from 1 2 Substring_of_substring_rebases [of "[?f, ?s]" 1 ?s 0 ?f 3 2 False]
  obtain h1 s1 h2 r' node' where b: "Substring False [?f, ?s] (Some 0) 5 10 = Inr (h1, Some s1)"
      "Substring False h1 (Some s1) 2 3 = Inr (h2, Some r')"
      "deref h2 (Some r') = Some node'" "child node' = Some 0" "start node' = 7"
    by blast
  have r: "r = 2" using a(2) by simp
  have st: "start node = 7" using a(6) by simp
  have A: ?A
    using a(1,3,4,5,7) st unfolding r by (intro exI [of _ h'] exI [of _ node]) simp
  have B: ?B
    using b by (intro exI [of _ h1] exI [of _ s1] exI [of _ h2] exI [of _ r'] exI [of _ node']) simp
  from A B show ?thesis by (rule conjI)
qed

theorem Substring_full_range_adds_reference_witness:
  "Substring False
     [\<lparr>length_rep = 20, refcount = RefcountAndFlags_default, tag = FLAT,
        start = 0, child = None\<rparr>] (Some 0) 0 20 =
   Inr ([\<lparr>length_rep = 20, refcount = Increment RefcountAndFlags_default, tag = FLAT,
            start = 0, child = None\<rparr>], Some 0) \<and>
   Get RefcountAndFlags_default = 1 \<and> Get (Increment RefcountAndFlags_default) = 2"
proof -
  let ?f = "\<lparr>length_rep = 20, refcount = RefcountAndFlags_default, tag = FLAT,
        start = 0, child = None\<rparr>"
  have 1: "deref [?f] (Some 0) = Some ?f \<and> length_rep ?f \<noteq> 0"
    by (simp add: deref_def)
  have 2: "sint (count (refcount ?f)) + 2 < 2 ^ 31"
    by (simp add: RefcountAndFlags_default_def kRefIncrement_eq)
  have 3: "Get RefcountAndFlags_default = 1"
    by (simp add: Get_eq_1 RefcountAndFlags_default_def kRefIncrement_eq)
  obtain h' where h: "Substring False [?f] (Some 0) 0 (length_rep ?f) = Inr (h', Some 0)"
      "length h' = length [?f]"
      "deref h' (Some 0) = Some (?f\<lparr>refcount := Increment (refcount ?f)\<rparr>)"
      "Get (Increment (refcount ?f)) = Get (refcount ?f) + 1"
    using 1 2 Substring_full_range_adds_reference [of "[?f]" 0 ?f False] by blast
  from h(2) obtain x where x: "h' = [x]" by (cases h') auto
  with h(3) have "x = ?f\<lparr>refcount := Increment (refcount ?f)\<rparr>" by (simp add: deref_def)
  with x h(1) h(4) 3 show ?thesis by simp
qed

section \<open>Properties of the delete queue\<close>

lemma then_do_simps:
  "then_do None f = None"
  "then_do (Some (Inl e)) f = Some (Inl e)"
  "then_do (Some (Inr x)) f = f x"
  by (simp_all add: then_do_def)

lemma walk_prev_None: "walk_prev hs acc None = Some (Inr acc)"
  by (subst walk_prev.simps) simp

lemma walk_prev_Some:
  "hs a = Some n \<Longrightarrow> walk_prev hs acc (Some a) = walk_prev hs (acc @ [a]) (dq_prev n)"
  by (subst walk_prev.simps) simp

lemma walk_next_None: "walk_next hs acc None = Some (Inr acc)"
  by (subst walk_next.simps) simp

lemma walk_next_Some:
  "hs a = Some n \<Longrightarrow>
   walk_next hs acc (Some a) = walk_next hs (if \<not> is_snapshot n then acc @ [a] else acc) (dq_next n)"
  by (subst walk_next.simps) simp

lemma collect_to_delete_None: "collect_to_delete hs td None = Some (Inr (td, None))"
  by (subst collect_to_delete.simps) simp

lemma collect_to_delete_Some:
  "hs a = Some n \<Longrightarrow>
   collect_to_delete hs td (Some a) =
     (if \<not> is_snapshot n then collect_to_delete hs (td @ [a]) (dq_next n)
      else Some (Inr (td, Some a)))"
  by (subst collect_to_delete.simps) simp

lemma inspect_loop_None: "inspect_loop hs this h f None = Some (Inr (None, f))"
  by (subst inspect_loop.simps) simp

lemma inspect_loop_hit: "inspect_loop hs this h f (Some h) = Some (Inr (Some (\<not> f), f))"
  by (subst inspect_loop.simps) simp

lemma inspect_loop_step:
  "a \<noteq> h \<Longrightarrow> hs a = Some n \<Longrightarrow>
   inspect_loop hs this h f (Some a) =
     inspect_loop hs this h (if a = this then True else f) (dq_prev n)"
  by (subst inspect_loop.simps) simp

lemmas loop_simps = then_do_simps walk_prev_None walk_prev_Some walk_next_None walk_next_Some
  collect_to_delete_None collect_to_delete_Some inspect_loop_None inspect_loop_hit
  inspect_loop_step

lemmas queue_defs = CordzHandle_ctor_def store_field_def free_handle_def IsEmpty_def
  dtor_finish_def CordzHandle_dtor_def delete_handle_def SafeToDelete_def Delete_def
  DiagnosticsGetDeleteQueue_def DiagnosticsHandleIsSafeToInspect_def
  DiagnosticsGetSafeToInspectDeletedHandles_def

text \<open>
  C1.  Start from any state whose delete queue is empty, and take three different
  addresses \<open>S1\<close>, \<open>H\<close>, \<open>S2\<close>.  Constructing a snapshot at \<open>S1\<close>, constructing a
  handle that is not a snapshot at \<open>H\<close> and calling \<open>Delete(H)\<close> defers \<open>H\<close>: it
  stays allocated and \<open>DiagnosticsGetDeleteQueue\<close> returns \<open>[H, S1]\<close>.  Constructing a snapshot at \<open>S2\<close>
  makes it \<open>[S2, H, S1]\<close>; then \<open>S1.DiagnosticsHandleIsSafeToInspect(H)\<close> is true and
  \<open>S2.DiagnosticsHandleIsSafeToInspect(H)\<close> is false; and \<open>delete S1\<close> frees \<open>H\<close> along
  with \<open>S1\<close> and leaves the queue \<open>[S2]\<close>.  Every call returns, in either build.
\<close>

theorem deferred_deletion_scenario:
  assumes "dq_tail st0 = None" "S1 \<noteq> H" "S1 \<noteq> S2" "H \<noteq> S2"
  shows "\<exists>st1 st2 st3 st4 st5.
     CordzHandle_ctor st0 S1 True = Inr st1 \<and>
     CordzHandle_ctor st1 H False = Inr st2 \<and>
     Delete ndebug st2 (Some H) = Some (Inr st3) \<and> handles st3 H \<noteq> None \<and>
     DiagnosticsGetDeleteQueue st3 = Some (Inr [H, S1]) \<and>
     CordzHandle_ctor st3 S2 True = Inr st4 \<and>
     DiagnosticsGetDeleteQueue st4 = Some (Inr [S2, H, S1]) \<and>
     DiagnosticsHandleIsSafeToInspect ndebug st4 S1 (Some H) = Some (Inr True) \<and>
     DiagnosticsHandleIsSafeToInspect ndebug st4 S2 (Some H) = Some (Inr False) \<and>
     delete_handle st4 S1 = Some (Inr st5) \<and>
     handles st5 S1 = None \<and> handles st5 H = None \<and>
     DiagnosticsGetDeleteQueue st5 = Some (Inr [S2])"
proof -
  let ?h0 = "handles st0"
  let ?st1 = "st0\<lparr>handles := ?h0(S1 \<mapsto> \<lparr>is_snapshot = True, dq_prev = None, dq_next = None\<rparr>),
                 dq_tail := Some S1\<rparr>"
  have 1: "CordzHandle_ctor st0 S1 True = Inr ?st1"
    using assms by (simp add: queue_defs Let_def)
  let ?st2 = "?st1\<lparr>handles := (handles ?st1)(H \<mapsto> \<lparr>is_snapshot = False, dq_prev = None, dq_next = None\<rparr>)\<rparr>"
  have 2: "CordzHandle_ctor ?st1 H False = Inr ?st2"
    by (simp add: queue_defs Let_def)
  let ?st3 = "st0\<lparr>handles := ?h0(S1 \<mapsto> \<lparr>is_snapshot = True, dq_prev = None, dq_next = Some H\<rparr>,
                                 H \<mapsto> \<lparr>is_snapshot = False, dq_prev = Some S1, dq_next = None\<rparr>),
                 dq_tail := Some H\<rparr>"
  have 3: "Delete ndebug ?st2 (Some H) = Some (Inr ?st3)"
    using assms by (simp add: queue_defs Let_def fun_upd_twist)
  have 4: "handles ?st3 H \<noteq> None \<and> DiagnosticsGetDeleteQueue ?st3 = Some (Inr [H, S1])"
    using assms by (simp add: queue_defs loop_simps)
  let ?st4 = "st0\<lparr>handles := ?h0(S1 \<mapsto> \<lparr>is_snapshot = True, dq_prev = None, dq_next = Some H\<rparr>,
                                 H \<mapsto> \<lparr>is_snapshot = False, dq_prev = Some S1, dq_next = Some S2\<rparr>,
                                 S2 \<mapsto> \<lparr>is_snapshot = True, dq_prev = Some H, dq_next = None\<rparr>),
                 dq_tail := Some S2\<rparr>"
  have 5: "CordzHandle_ctor ?st3 S2 True = Inr ?st4"
    using assms by (simp add: queue_defs Let_def fun_upd_twist)
  have 6: "DiagnosticsGetDeleteQueue ?st4 = Some (Inr [S2, H, S1])"
    using assms by (simp add: queue_defs loop_simps)
  have 7: "DiagnosticsHandleIsSafeToInspect ndebug ?st4 S1 (Some H) = Some (Inr True)"
    using assms by (simp add: queue_defs loop_simps)
  have 8: "DiagnosticsHandleIsSafeToInspect ndebug ?st4 S2 (Some H) = Some (Inr False)"
    using assms by (simp add: queue_defs loop_simps)
  let ?st5 = "st0\<lparr>handles := (?h0(S1 := None, H := None))
                        (S2 \<mapsto> \<lparr>is_snapshot = True, dq_prev = None, dq_next = None\<rparr>),
                 dq_tail := Some S2\<rparr>"
  have 9: "delete_handle ?st4 S1 = Some (Inr ?st5)"
    using assms by (simp add: queue_defs loop_simps fun_upd_twist)
  have 10: "handles ?st5 S1 = None \<and> handles ?st5 H = None"
    using assms by simp
  have 11: "DiagnosticsGetDeleteQueue ?st5 = Some (Inr [S2])"
    using assms by (simp add: queue_defs loop_simps)
  from 1 2 3 4 5 6 7 8 9 10 11 show ?thesis by blast
qed


text \<open>
  The scenario of C1 at the addresses 1, 2 and 3, from the empty state, with assertions
  enabled.
\<close>

theorem deferred_deletion_scenario_witness:
  "\<exists>st1 st2 st3 st4 st5.
     CordzHandle_ctor empty_queue 1 True = Inr st1 \<and>
     CordzHandle_ctor st1 2 False = Inr st2 \<and>
     Delete False st2 (Some 2) = Some (Inr st3) \<and> handles st3 2 \<noteq> None \<and>
     DiagnosticsGetDeleteQueue st3 = Some (Inr [2, 1]) \<and>
     CordzHandle_ctor st3 3 True = Inr st4 \<and>
     DiagnosticsGetDeleteQueue st4 = Some (Inr [3, 2, 1]) \<and>
     DiagnosticsHandleIsSafeToInspect False st4 1 (Some 2) = Some (Inr True) \<and>
     DiagnosticsHandleIsSafeToInspect False st4 3 (Some 2) = Some (Inr False) \<and>
     delete_handle st4 1 = Some (Inr st5) \<and>
     handles st5 1 = None \<and> handles st5 2 = None \<and>
     DiagnosticsGetDeleteQueue st5 = Some (Inr [3])"
  using deferred_deletion_scenario [of empty_queue 1 2 3 False]
  by (simp add: empty_queue_def)

lemma two_snapshot_queue_built:
  "\<exists>st1 st2 st3 st4 st5.
     CordzHandle_ctor empty_queue 1 True = Inr st1 \<and>
     CordzHandle_ctor st1 2 False = Inr st2 \<and>
     Delete ndebug st2 (Some 2) = Some (Inr st3) \<and>
     CordzHandle_ctor st3 3 True = Inr st4 \<and>
     CordzHandle_ctor st4 4 False = Inr st5 \<and>
     Delete ndebug st5 (Some 4) = Some (Inr two_snapshot_queue)"
  by (simp add: queue_defs Let_def empty_queue_def two_snapshot_queue_def fun_upd_twist)

lemma walk_next_linked:
  "dq_linked hs prv xs \<Longrightarrow>
   walk_next hs acc (case xs of [] \<Rightarrow> None | y # ys \<Rightarrow> Some y) =
     Some (Inr (acc @ filter (\<lambda>a. \<not> (case hs a of None \<Rightarrow> False | Some n \<Rightarrow> is_snapshot n)) xs))"
proof (induction xs arbitrary: prv acc)
  case Nil
  show ?case by (simp add: walk_next_None)
next
  case (Cons x xs)
  from Cons.prems obtain n where n: "hs x = Some n"
      "dq_next n = (case xs of [] \<Rightarrow> None | y # ys \<Rightarrow> Some y)" "dq_linked hs (Some x) xs"
    by (auto split: option.splits)
  show ?case
    using n(1) Cons.IH [OF n(3)] by (simp add: walk_next_Some n(2))
qed

lemma dq_linked_suffix:
  "dq_linked hs prv (pre @ xs) \<Longrightarrow> \<exists>p. dq_linked hs p xs"
proof (induction pre arbitrary: prv)
  case Nil
  then show ?case by auto
next
  case (Cons a pre)
  from Cons.prems have "dq_linked hs (Some a) (pre @ xs)"
    by (auto split: option.splits)
  then show ?case by (rule Cons.IH)
qed

lemma safe_to_inspect_in_queue:
  assumes q: "delete_queue st (before @ this # after)" and s: "snapshot_at st this"
  shows "DiagnosticsGetSafeToInspectDeletedHandles st this =
     Some (Inr (filter (\<lambda>a. \<not> snapshot_at st a) after))"
proof -
  from q have "dq_linked (handles st) None (before @ this # after)"
    by (simp add: delete_queue_def)
  then obtain p where "dq_linked (handles st) p (this # after)"
    using dq_linked_suffix by blast
  then obtain me where me: "handles st this = Some me"
      "dq_next me = (case after of [] \<Rightarrow> None | y # ys \<Rightarrow> Some y)"
      "dq_linked (handles st) (Some this) after"
    by (auto split: option.splits)
  have "is_snapshot me" using s me(1) by (simp add: snapshot_at_def)
  then show ?thesis
    using me(1) walk_next_linked [OF me(3), of "[]"]
    by (simp add: DiagnosticsGetSafeToInspectDeletedHandles_def me(2) snapshot_at_def)
qed

text \<open>
  C3, as stated, fails.  In the queue of \<open>two_snapshot_queue\<close>, head to tail
  1 (snapshot), 2, 3 (snapshot), 4, the call on the snapshot 1 returns the handles 2 and 4:
  the loop follows \<open>dq_next_\<close> to the end of the list and skips the snapshot 3 without
  stopping at it, where the claim has the handle 2 alone.
\<close>

theorem safe_to_inspect_beyond_next_snapshot_counterexample:
  "delete_queue two_snapshot_queue [1, 2, 3, 4] \<and>
   snapshot_at two_snapshot_queue 1 \<and> snapshot_at two_snapshot_queue 3 \<and>
   DiagnosticsGetSafeToInspectDeletedHandles two_snapshot_queue 1 = Some (Inr [2, 4]) \<and>
   spec_handles_up_to_next_snapshot two_snapshot_queue [2, 3, 4] = [2]"
  by (simp add: two_snapshot_queue_def delete_queue_def snapshot_at_def
      DiagnosticsGetSafeToInspectDeletedHandles_def spec_handles_up_to_next_snapshot_def
      walk_next_None walk_next_Some)

text \<open>
  C3, amended.  \<open>DiagnosticsGetSafeToInspectDeletedHandles\<close> returns the empty vector
  when the calling handle is not a snapshot.  When the caller is a snapshot in the
  delete queue, the call returns, and the handles in the returned vector are exactly
  the handles that are not snapshots among all the entries between the caller and the
  tail of the queue, those that follow a later snapshot included.
\<close>

theorem safe_to_inspect_deleted_handles:
  "(handles st this = Some me \<and> \<not> is_snapshot me \<longrightarrow>
      DiagnosticsGetSafeToInspectDeletedHandles st this = Some (Inr [])) \<and>
   (delete_queue st (before @ this # after) \<and> snapshot_at st this \<longrightarrow>
      (\<exists>hs. DiagnosticsGetSafeToInspectDeletedHandles st this = Some (Inr hs) \<and>
         set hs = {a \<in> set after. \<not> snapshot_at st a}))"
  using safe_to_inspect_in_queue [of st before this after]
  by (simp add: DiagnosticsGetSafeToInspectDeletedHandles_def)

theorem safe_to_inspect_deleted_handles_witness:
  "DiagnosticsGetSafeToInspectDeletedHandles two_snapshot_queue 2 = Some (Inr []) \<and>
   (\<exists>hs. DiagnosticsGetSafeToInspectDeletedHandles two_snapshot_queue 1 = Some (Inr hs) \<and>
      set hs = {2, 4})"
proof -
  have 1: "handles two_snapshot_queue 2 =
      Some \<lparr>is_snapshot = False, dq_prev = Some 1, dq_next = Some 3\<rparr>"
    by (simp add: two_snapshot_queue_def)
  have 2: "delete_queue two_snapshot_queue ([] @ 1 # [2, 3, 4])"
    by (simp add: two_snapshot_queue_def delete_queue_def)
  have 3: "snapshot_at two_snapshot_queue 1" "snapshot_at two_snapshot_queue 3"
      "\<not> snapshot_at two_snapshot_queue 2" "\<not> snapshot_at two_snapshot_queue 4"
    by (simp_all add: two_snapshot_queue_def snapshot_at_def)
  have a: "DiagnosticsGetSafeToInspectDeletedHandles two_snapshot_queue 2 = Some (Inr [])"
    using 1 safe_to_inspect_deleted_handles
      [of two_snapshot_queue 2 "\<lparr>is_snapshot = False, dq_prev = Some 1, dq_next = Some 3\<rparr>"]
    by simp
  have "{a \<in> set [2, 3, 4]. \<not> snapshot_at two_snapshot_queue a} = {2, 4}"
    using 3 by auto
  then have b: "\<exists>hs. DiagnosticsGetSafeToInspectDeletedHandles two_snapshot_queue 1 = Some (Inr hs) \<and>
      set hs = {2, 4}"
    using 2 3(1) safe_to_inspect_deleted_handles [of two_snapshot_queue 1 _ "[]" "[2, 3, 4]"]
    by simp
  from a b show ?thesis by (rule conjI)
qed

text \<open>
  C8, as stated, fails in a build with NDEBUG: \<open>assert(handle)\<close> is compiled out, the
  guard \<open>if (handle)\<close> skips the body, and \<open>Delete(nullptr)\<close> returns normally with
  the state unchanged.
\<close>

theorem Delete_null_counterexample:
  "Delete True empty_queue None = Some (Inr empty_queue)"
  by (simp add: Delete_def)

text \<open>
  C8, amended.  With assertions enabled \<open>CordzHandle::Delete(nullptr)\<close> aborts on
  \<open>assert(handle)\<close>; compiled with NDEBUG it returns normally and changes neither the
  queue nor any handle.
\<close>

theorem Delete_null_by_build:
  "Delete False st None = Some (Inl AssertionFailure) \<and> Delete True st None = Some (Inr st)"
  by (simp add: Delete_def)

theorem Delete_null_by_build_witness:
  "Delete False two_snapshot_queue None = Some (Inl AssertionFailure) \<and>
   Delete True two_snapshot_queue None = Some (Inr two_snapshot_queue)"
  by (rule Delete_null_by_build)

section \<open>Properties of InlineData\<close>

lemma store64_bytes:
  "store64 w = [ucast w, ucast (drop_bit 8 w), ucast (drop_bit 16 w), ucast (drop_bit 24 w),
     ucast (drop_bit 32 w), ucast (drop_bit 40 w), ucast (drop_bit 48 w), ucast (drop_bit 56 w)]"
  by (simp add: store64_def upt_rec)

lemma length_store64: "length (store64 w) = 8"
  by (simp add: store64_def)

lemma byte_split:
  fixes x :: "64 word"
  shows "ucast (ucast x :: byte) OR push_bit 8 (drop_bit 8 x) = x"
proof (rule bit_eqI)
  fix n
  show "bit (ucast (ucast x :: byte) OR push_bit 8 (drop_bit 8 x)) n \<longleftrightarrow> bit x n"
  proof (cases "n < 8")
    case True
    then show ?thesis by (simp add: bit_simps)
  next
    case False
    then have "8 + (n - 8) = n" by simp
    with False show ?thesis by (auto simp: bit_simps dest: bit_imp_le_length)
  qed
qed

lemma load64_Cons: "load64 (b # bs) = ucast b OR push_bit 8 (load64 bs)"
  by (simp add: load64_def)

lemma load64_Nil: "load64 [] = 0"
  by (simp add: load64_def)

lemma load64_store64: "load64 (store64 w) = w"
proof -
  have 7: "load64 [ucast (drop_bit 56 w)] = drop_bit 56 w"
    using byte_split [of "drop_bit 56 w"] by (simp add: load64_Cons load64_Nil drop_bit_drop_bit)
  have 6: "load64 [ucast (drop_bit 48 w), ucast (drop_bit 56 w)] = drop_bit 48 w"
    using byte_split [of "drop_bit 48 w"] by (simp only: load64_Cons [of _ "[_]"] 7) simp
  have 5: "load64 [ucast (drop_bit 40 w), ucast (drop_bit 48 w), ucast (drop_bit 56 w)] = drop_bit 40 w"
    using byte_split [of "drop_bit 40 w"] by (simp only: load64_Cons [of _ "[_, _]"] 6) simp
  have 4: "load64 [ucast (drop_bit 32 w), ucast (drop_bit 40 w), ucast (drop_bit 48 w),
      ucast (drop_bit 56 w)] = drop_bit 32 w"
    using byte_split [of "drop_bit 32 w"] by (simp only: load64_Cons [of _ "[_, _, _]"] 5) simp
  have 3: "load64 [ucast (drop_bit 24 w), ucast (drop_bit 32 w), ucast (drop_bit 40 w),
      ucast (drop_bit 48 w), ucast (drop_bit 56 w)] = drop_bit 24 w"
    using byte_split [of "drop_bit 24 w"] by (simp only: load64_Cons [of _ "[_, _, _, _]"] 4) simp
  have 2: "load64 [ucast (drop_bit 16 w), ucast (drop_bit 24 w), ucast (drop_bit 32 w),
      ucast (drop_bit 40 w), ucast (drop_bit 48 w), ucast (drop_bit 56 w)] = drop_bit 16 w"
    using byte_split [of "drop_bit 16 w"] by (simp only: load64_Cons [of _ "[_, _, _, _, _]"] 3) simp
  have 1: "load64 [ucast (drop_bit 8 w), ucast (drop_bit 16 w), ucast (drop_bit 24 w),
      ucast (drop_bit 32 w), ucast (drop_bit 40 w), ucast (drop_bit 48 w),
      ucast (drop_bit 56 w)] = drop_bit 8 w"
    using byte_split [of "drop_bit 8 w"] by (simp only: load64_Cons [of _ "[_, _, _, _, _, _]"] 2) simp
  show ?thesis
    using byte_split [of w] by (simp only: store64_bytes load64_Cons [of _ "[_, _, _, _, _, _, _]"] 1)
qed


lemmas inline_defs = set_inline_data_def SmallMemmove_nullify_tail_def write_bytes_def
  Rep_set_tag_def Rep_as_chars_def Rep_tag_def is_tree_def inline_size_def Rep_inline_size_def
  Rep_is_tree_def as_chars_def kMaxInline_def

lemma list_update_Cons_numeral:
  "(x # xs)[numeral k := v] = x # xs[pred_numeral k := v]"
  by (simp add: numeral_eq_Suc)

lemma list16:
  assumes "length d = 16"
  obtains d0 d1 d2 d3 d4 d5 d6 d7 d8 d9 d10 d11 d12 d13 d14 d15
  where "d = [d0, d1, d2, d3, d4, d5, d6, d7, d8, d9, d10, d11, d12, d13, d14, d15]"
proof -
  have "map ((!) d) [0..<length d] = d" by (rule map_nth)
  then have "\<exists>d0 d1 d2 d3 d4 d5 d6 d7 d8 d9 d10 d11 d12 d13 d14 d15.
      d = [d0, d1, d2, d3, d4, d5, d6, d7, d8, d9, d10, d11, d12, d13, d14, d15]"
    unfolding assms by (simp add: upt_rec) metis
  then show ?thesis using that by blast
qed

lemma set_inline_data_round_trip:
  fixes d :: InlineData
  assumes "length d = 16" "length s \<le> 15"
  shows "\<exists>d'. set_inline_data ndebug d s (of_nat (length s)) = Inr d' \<and> length d' = 16 \<and>
      \<not> is_tree d' \<and> inline_size ndebug d' = Inr (of_nat (length s)) \<and>
      (\<exists>cs. as_chars ndebug d' = Inr cs \<and> take (length s) cs = s)"
proof -
  from assms(1) obtain d0 d1 d2 d3 d4 d5 d6 d7 d8 d9 d10 d11 d12 d13 d14 d15
    where d: "d = [d0, d1, d2, d3, d4, d5, d6, d7, d8, d9, d10, d11, d12, d13, d14, d15]"
    by (rule list16)
  have "length s \<in> set [0..<16]" using assms(2) by simp
  then consider (c0) "length s = 0"
    | (c1) "length s = Suc 0"
    | (c2) "length s = Suc (Suc 0)"
    | (c3) "length s = Suc (Suc (Suc 0))"
    | (c4) "length s = Suc (Suc (Suc (Suc 0)))"
    | (c5) "length s = Suc (Suc (Suc (Suc (Suc 0))))"
    | (c6) "length s = Suc (Suc (Suc (Suc (Suc (Suc 0)))))"
    | (c7) "length s = Suc (Suc (Suc (Suc (Suc (Suc (Suc 0))))))"
    | (c8) "length s = Suc (Suc (Suc (Suc (Suc (Suc (Suc (Suc 0)))))))"
    | (c9) "length s = Suc (Suc (Suc (Suc (Suc (Suc (Suc (Suc (Suc 0))))))))"
    | (c10) "length s = Suc (Suc (Suc (Suc (Suc (Suc (Suc (Suc (Suc (Suc 0)))))))))"
    | (c11) "length s = Suc (Suc (Suc (Suc (Suc (Suc (Suc (Suc (Suc (Suc (Suc 0))))))))))"
    | (c12) "length s = Suc (Suc (Suc (Suc (Suc (Suc (Suc (Suc (Suc (Suc (Suc (Suc 0)))))))))))"
    | (c13) "length s = Suc (Suc (Suc (Suc (Suc (Suc (Suc (Suc (Suc (Suc (Suc (Suc (Suc 0))))))))))))"
    | (c14) "length s = Suc (Suc (Suc (Suc (Suc (Suc (Suc (Suc (Suc (Suc (Suc (Suc (Suc (Suc 0)))))))))))))"
    | (c15) "length s = Suc (Suc (Suc (Suc (Suc (Suc (Suc (Suc (Suc (Suc (Suc (Suc (Suc (Suc (Suc 0))))))))))))))"
    by atomize_elim (simp add: upt_rec)
  then show ?thesis
  proof cases
    case c0
    then have s: "s = []" by simp
    show ?thesis
      unfolding d s by (simp add: inline_defs Let_def list_update_Cons_numeral)
  next
    case c1
    have "map ((!) s) [0..<length s] = s" by (rule map_nth)
    then have "\<exists>s0. s = [s0]"
      unfolding c1 by (simp add: upt_rec) metis
    then obtain s0 where s: "s = [s0]" by blast
    show ?thesis
      unfolding d s by (simp add: inline_defs Let_def list_update_Cons_numeral)
  next
    case c2
    have "map ((!) s) [0..<length s] = s" by (rule map_nth)
    then have "\<exists>s0 s1. s = [s0, s1]"
      unfolding c2 by (simp add: upt_rec) metis
    then obtain s0 s1 where s: "s = [s0, s1]" by blast
    show ?thesis
      unfolding d s by (simp add: inline_defs Let_def list_update_Cons_numeral)
  next
    case c3
    have "map ((!) s) [0..<length s] = s" by (rule map_nth)
    then have "\<exists>s0 s1 s2. s = [s0, s1, s2]"
      unfolding c3 by (simp add: upt_rec) metis
    then obtain s0 s1 s2 where s: "s = [s0, s1, s2]" by blast
    show ?thesis
      unfolding d s by (simp add: inline_defs Let_def list_update_Cons_numeral)
  next
    case c4
    have "map ((!) s) [0..<length s] = s" by (rule map_nth)
    then have "\<exists>s0 s1 s2 s3. s = [s0, s1, s2, s3]"
      unfolding c4 by (simp add: upt_rec) metis
    then obtain s0 s1 s2 s3 where s: "s = [s0, s1, s2, s3]" by blast
    show ?thesis
      unfolding d s by (simp add: inline_defs Let_def list_update_Cons_numeral)
  next
    case c5
    have "map ((!) s) [0..<length s] = s" by (rule map_nth)
    then have "\<exists>s0 s1 s2 s3 s4. s = [s0, s1, s2, s3, s4]"
      unfolding c5 by (simp add: upt_rec) metis
    then obtain s0 s1 s2 s3 s4 where s: "s = [s0, s1, s2, s3, s4]" by blast
    show ?thesis
      unfolding d s by (simp add: inline_defs Let_def list_update_Cons_numeral)
  next
    case c6
    have "map ((!) s) [0..<length s] = s" by (rule map_nth)
    then have "\<exists>s0 s1 s2 s3 s4 s5. s = [s0, s1, s2, s3, s4, s5]"
      unfolding c6 by (simp add: upt_rec) metis
    then obtain s0 s1 s2 s3 s4 s5 where s: "s = [s0, s1, s2, s3, s4, s5]" by blast
    show ?thesis
      unfolding d s by (simp add: inline_defs Let_def list_update_Cons_numeral)
  next
    case c7
    have "map ((!) s) [0..<length s] = s" by (rule map_nth)
    then have "\<exists>s0 s1 s2 s3 s4 s5 s6. s = [s0, s1, s2, s3, s4, s5, s6]"
      unfolding c7 by (simp add: upt_rec) metis
    then obtain s0 s1 s2 s3 s4 s5 s6 where s: "s = [s0, s1, s2, s3, s4, s5, s6]" by blast
    show ?thesis
      unfolding d s by (simp add: inline_defs Let_def list_update_Cons_numeral)
  next
    case c8
    have "map ((!) s) [0..<length s] = s" by (rule map_nth)
    then have "\<exists>s0 s1 s2 s3 s4 s5 s6 s7. s = [s0, s1, s2, s3, s4, s5, s6, s7]"
      unfolding c8 by (simp add: upt_rec) metis
    then obtain s0 s1 s2 s3 s4 s5 s6 s7 where s: "s = [s0, s1, s2, s3, s4, s5, s6, s7]" by blast
    show ?thesis
      unfolding d s by (simp add: inline_defs Let_def list_update_Cons_numeral)
  next
    case c9
    have "map ((!) s) [0..<length s] = s" by (rule map_nth)
    then have "\<exists>s0 s1 s2 s3 s4 s5 s6 s7 s8. s = [s0, s1, s2, s3, s4, s5, s6, s7, s8]"
      unfolding c9 by (simp add: upt_rec) metis
    then obtain s0 s1 s2 s3 s4 s5 s6 s7 s8 where s: "s = [s0, s1, s2, s3, s4, s5, s6, s7, s8]" by blast
    show ?thesis
      unfolding d s by (simp add: inline_defs Let_def list_update_Cons_numeral)
  next
    case c10
    have "map ((!) s) [0..<length s] = s" by (rule map_nth)
    then have "\<exists>s0 s1 s2 s3 s4 s5 s6 s7 s8 s9. s = [s0, s1, s2, s3, s4, s5, s6, s7, s8, s9]"
      unfolding c10 by (simp add: upt_rec) metis
    then obtain s0 s1 s2 s3 s4 s5 s6 s7 s8 s9 where s: "s = [s0, s1, s2, s3, s4, s5, s6, s7, s8, s9]" by blast
    show ?thesis
      unfolding d s by (simp add: inline_defs Let_def list_update_Cons_numeral)
  next
    case c11
    have "map ((!) s) [0..<length s] = s" by (rule map_nth)
    then have "\<exists>s0 s1 s2 s3 s4 s5 s6 s7 s8 s9 s10. s = [s0, s1, s2, s3, s4, s5, s6, s7, s8, s9, s10]"
      unfolding c11 by (simp add: upt_rec) metis
    then obtain s0 s1 s2 s3 s4 s5 s6 s7 s8 s9 s10 where s: "s = [s0, s1, s2, s3, s4, s5, s6, s7, s8, s9, s10]" by blast
    show ?thesis
      unfolding d s by (simp add: inline_defs Let_def list_update_Cons_numeral)
  next
    case c12
    have "map ((!) s) [0..<length s] = s" by (rule map_nth)
    then have "\<exists>s0 s1 s2 s3 s4 s5 s6 s7 s8 s9 s10 s11. s = [s0, s1, s2, s3, s4, s5, s6, s7, s8, s9, s10, s11]"
      unfolding c12 by (simp add: upt_rec) metis
    then obtain s0 s1 s2 s3 s4 s5 s6 s7 s8 s9 s10 s11 where s: "s = [s0, s1, s2, s3, s4, s5, s6, s7, s8, s9, s10, s11]" by blast
    show ?thesis
      unfolding d s by (simp add: inline_defs Let_def list_update_Cons_numeral)
  next
    case c13
    have "map ((!) s) [0..<length s] = s" by (rule map_nth)
    then have "\<exists>s0 s1 s2 s3 s4 s5 s6 s7 s8 s9 s10 s11 s12. s = [s0, s1, s2, s3, s4, s5, s6, s7, s8, s9, s10, s11, s12]"
      unfolding c13 by (simp add: upt_rec) metis
    then obtain s0 s1 s2 s3 s4 s5 s6 s7 s8 s9 s10 s11 s12 where s: "s = [s0, s1, s2, s3, s4, s5, s6, s7, s8, s9, s10, s11, s12]" by blast
    show ?thesis
      unfolding d s by (simp add: inline_defs Let_def list_update_Cons_numeral)
  next
    case c14
    have "map ((!) s) [0..<length s] = s" by (rule map_nth)
    then have "\<exists>s0 s1 s2 s3 s4 s5 s6 s7 s8 s9 s10 s11 s12 s13. s = [s0, s1, s2, s3, s4, s5, s6, s7, s8, s9, s10, s11, s12, s13]"
      unfolding c14 by (simp add: upt_rec) metis
    then obtain s0 s1 s2 s3 s4 s5 s6 s7 s8 s9 s10 s11 s12 s13 where s: "s = [s0, s1, s2, s3, s4, s5, s6, s7, s8, s9, s10, s11, s12, s13]" by blast
    show ?thesis
      unfolding d s by (simp add: inline_defs Let_def list_update_Cons_numeral)
  next
    case c15
    have "map ((!) s) [0..<length s] = s" by (rule map_nth)
    then have "\<exists>s0 s1 s2 s3 s4 s5 s6 s7 s8 s9 s10 s11 s12 s13 s14. s = [s0, s1, s2, s3, s4, s5, s6, s7, s8, s9, s10, s11, s12, s13, s14]"
      unfolding c15 by (simp add: upt_rec) metis
    then obtain s0 s1 s2 s3 s4 s5 s6 s7 s8 s9 s10 s11 s12 s13 s14 where s: "s = [s0, s1, s2, s3, s4, s5, s6, s7, s8, s9, s10, s11, s12, s13, s14]" by blast
    show ?thesis
      unfolding d s by (simp add: inline_defs Let_def list_update_Cons_numeral)
  qed
qed

lemma kNullCordzInfo_eq: "kNullCordzInfo = 1"
  by (simp add: kNullCordzInfo_def LittleEndianByte_def)

lemma hd_store64: "store64 w ! 0 = ucast w"
  by (simp add: store64_bytes)

lemma Rep_of_tree_fields:
  "length (Rep_of_tree p) = 16" "Rep_tag (Rep_of_tree p) = 1" "Rep_tree (Rep_of_tree p) = p"
  "Rep_cordz_info (Rep_of_tree p) = kNullCordzInfo"
  by (simp_all add: Rep_of_tree_def Rep_tag_def Rep_tree_def Rep_cordz_info_def length_store64
      load64_store64 kNullCordzInfo_eq nth_append hd_store64)

lemma InlineData_of_tree_round_trip:
  assumes "p \<noteq> 0"
  shows "\<exists>d'. InlineData_of_tree ndebug p = Inr d' \<and> length d' = 16 \<and> is_tree d' \<and>
      as_tree ndebug d' = Inr p"
  using assms
  by (simp add: InlineData_of_tree_def Let_def is_tree_def as_tree_def Rep_of_tree_fields)

text \<open>
  C9.  For every byte string \<open>s\<close> of length \<open>n \<le> 15\<close>, \<open>set_inline_data(s, n)\<close> on
  any \<open>InlineData\<close> returns, in either build, a value with \<open>is_tree() == false\<close> and
  \<open>inline_size() == n\<close> whose first \<open>n\<close> bytes at \<open>as_chars()\<close> are \<open>s\<close>.  For every
  non-null pointer \<open>p\<close>, \<open>InlineData(p)\<close> has \<open>is_tree() == true\<close> and
  \<open>as_tree() == p\<close>.
\<close>

theorem inline_data_round_trip:
  "(length d = kMaxInline + 1 \<and> length s \<le> kMaxInline \<longrightarrow>
     (\<exists>d'. set_inline_data ndebug d s (of_nat (length s)) = Inr d' \<and>
        length d' = kMaxInline + 1 \<and> \<not> is_tree d' \<and>
        inline_size ndebug d' = Inr (of_nat (length s)) \<and>
        (\<exists>cs. as_chars ndebug d' = Inr cs \<and> take (length s) cs = s))) \<and>
   (p \<noteq> 0 \<longrightarrow>
     (\<exists>d'. InlineData_of_tree ndebug p = Inr d' \<and> length d' = kMaxInline + 1 \<and>
        is_tree d' \<and> as_tree ndebug d' = Inr p))"
  using set_inline_data_round_trip [of d s ndebug] InlineData_of_tree_round_trip [of p ndebug]
  by (simp add: kMaxInline_def)

text \<open>
  The round trip of C9 for the ten bytes 1 to 10 written into a zeroed \<open>InlineData\<close>,
  and for the pointer value 4096.
\<close>

theorem inline_data_round_trip_witness:
  "(\<exists>d'. set_inline_data False (replicate 16 0) [1, 2, 3, 4, 5, 6, 7, 8, 9, 10] 10 = Inr d' \<and>
      length d' = 16 \<and> \<not> is_tree d' \<and> inline_size False d' = Inr 10 \<and>
      (\<exists>cs. as_chars False d' = Inr cs \<and> take 10 cs = [1, 2, 3, 4, 5, 6, 7, 8, 9, 10])) \<and>
   (\<exists>d'. InlineData_of_tree False 4096 = Inr d' \<and> length d' = 16 \<and> is_tree d' \<and>
      as_tree False d' = Inr 4096)"
proof -
  have l: "length [1, 2, 3, 4, 5, 6, 7, 8, 9, 10 :: byte] = 10" by simp
  show ?thesis
    using inline_data_round_trip [of "replicate 16 0" "[1, 2, 3, 4, 5, 6, 7, 8, 9, 10]" False 4096,
        unfolded l]
    by (simp add: kMaxInline_def)
qed

lemma even_ucast_byte:
  fixes b :: byte
  shows "even (ucast b :: 64 word) \<longleftrightarrow> even b"
proof -
  have "bit (ucast b :: 64 word) 0 = bit b 0"
    by (simp only: bit_ucast_iff) simp
  then show ?thesis by (simp add: bit_0)
qed

lemma even_ucast_word:
  fixes w :: "64 word"
  shows "even (ucast w :: byte) \<longleftrightarrow> even w"
proof -
  have "bit (ucast w :: byte) 0 = bit w 0"
    by (simp only: bit_ucast_iff) simp
  then show ?thesis by (simp add: bit_0)
qed

lemma is_tree_odd: "is_tree d \<longleftrightarrow> odd (d ! 0)"
  by (simp add: is_tree_def Rep_tag_def and_one_eq mod_2_eq_odd)

lemma cordz_info_odd_iff:
  assumes "length d = 16"
  shows "odd (Rep_cordz_info d) \<longleftrightarrow> is_tree d"
proof -
  from assms obtain b bs where d: "d = b # bs" by (cases d) auto
  show ?thesis
    unfolding d by (simp add: Rep_cordz_info_def load64_Cons even_or_iff even_ucast_byte is_tree_odd)
qed

lemma make_tree_is_tree:
  assumes "length d = 16"
  shows "length (make_tree d rep) = 16 \<and> is_tree (make_tree d rep)"
proof -
  have "make_tree d rep = store64 kNullCordzInfo @ store64 rep"
    using assms
    by (simp add: make_tree_def Rep_make_tree_def Rep_set_cordz_info_def Rep_set_tree_def
        write_bytes_def length_store64)
  then show ?thesis
    by (simp add: length_store64 is_tree_odd nth_append hd_store64 kNullCordzInfo_eq)
qed

lemma Rep_set_cordz_info_is_tree:
  assumes "length d = 16"
  shows "length (Rep_set_cordz_info d w) = 16 \<and> (is_tree (Rep_set_cordz_info d w) \<longleftrightarrow> odd w)"
  using assms
  by (simp add: Rep_set_cordz_info_def write_bytes_def length_store64 is_tree_odd nth_append
      hd_store64 even_ucast_word)

lemma Rep_set_tree_is_tree:
  assumes "length d = 16"
  shows "length (Rep_set_tree d p) = 16 \<and> (is_tree (Rep_set_tree d p) \<longleftrightarrow> is_tree d)"
  using assms
  by (simp add: Rep_set_tree_def write_bytes_def length_store64 is_tree_odd nth_append)

lemma apply_tree_op_is_tree:
  assumes "length d = 16 \<and> is_tree d" "apply_tree_op ndebug d x = Inr d'"
  shows "length d' = 16 \<and> is_tree d'"
proof (cases x)
  case (MakeTree rep)
  then show ?thesis using assms make_tree_is_tree [of d rep] by auto
next
  case (SetCordzInfo info)
  then have "d' = Rep_set_cordz_info d (info OR 1)"
    using assms by (simp add: set_cordz_info_def Let_def)
  then show ?thesis
    using assms(1) Rep_set_cordz_info_is_tree [of d "info OR 1"] by (simp add: even_or_iff)
next
  case ClearCordzInfo
  then have "d' = Rep_set_cordz_info d kNullCordzInfo"
    using assms by (simp add: clear_cordz_info_def)
  then show ?thesis
    using assms(1) Rep_set_cordz_info_is_tree [of d kNullCordzInfo] by (simp add: kNullCordzInfo_eq)
next
  case (SetTree rep)
  then have "d' = Rep_set_tree d rep"
    using assms by (simp add: set_tree_def)
  then show ?thesis using assms(1) Rep_set_tree_is_tree [of d rep] by simp
qed

lemma apply_tree_ops_is_tree:
  assumes "length d = 16 \<and> is_tree d" "apply_tree_ops ndebug d xs = Inr d'"
  shows "length d' = 16 \<and> is_tree d'"
  using assms
proof (induction xs arbitrary: d)
  case Nil
  then show ?case by simp
next
  case (Cons x xs)
  from Cons.prems(2) obtain d1 where 1: "apply_tree_op ndebug d x = Inr d1"
      and 2: "apply_tree_ops ndebug d1 xs = Inr d'"
    by (auto split: sum.splits)
  from apply_tree_op_is_tree [OF Cons.prems(1) 1] 2 show ?case by (rule Cons.IH)
qed

lemma or_eq_1_iff:
  fixes a b :: "64 word"
  assumes "odd a" "odd b"
  shows "a OR b = 1 \<longleftrightarrow> a = 1 \<and> b = 1"
proof
  assume e: "a OR b = 1"
  have "a AND (a OR b) = a" "b AND (a OR b) = b" by (simp_all add: bit_eq_iff bit_simps)
  then have "a AND 1 = a" "b AND 1 = b" unfolding e by simp_all
  then show "a = 1 \<and> b = 1" using assms by (simp add: and_one_eq mod_2_eq_odd)
next
  assume "a = 1 \<and> b = 1"
  then show "a OR b = 1" by simp
qed

text \<open>
  C10.  Let \<open>data1\<close> and \<open>data2\<close> each be the result of \<open>make_tree\<close> on some
  \<open>InlineData\<close> followed by any run of \<open>make_tree\<close>, \<open>set_cordz_info\<close>,
  \<open>clear_cordz_info\<close> and \<open>set_tree\<close> in which no assertion fails.  Then both hold a
  tree, \<open>is_profiled\<close> and \<open>is_either_profiled\<close> return, and
  \<open>is_either_profiled(data1, data2)\<close> is \<open>data1.is_profiled() || data2.is_profiled()\<close>.
\<close>

theorem is_either_profiled_is_disjunction:
  "length d1 = kMaxInline + 1 \<and> length d2 = kMaxInline + 1 \<and>
   apply_tree_ops ndebug d1 (MakeTree rep1 # ops1) = Inr data1 \<and>
   apply_tree_ops ndebug d2 (MakeTree rep2 # ops2) = Inr data2 \<longrightarrow>
   is_tree data1 \<and> is_tree data2 \<and>
   (\<exists>p1 p2. is_profiled ndebug data1 = Inr p1 \<and> is_profiled ndebug data2 = Inr p2 \<and>
       is_either_profiled ndebug data1 data2 = Inr (p1 \<or> p2))"
proof
  assume a: "length d1 = kMaxInline + 1 \<and> length d2 = kMaxInline + 1 \<and>
   apply_tree_ops ndebug d1 (MakeTree rep1 # ops1) = Inr data1 \<and>
   apply_tree_ops ndebug d2 (MakeTree rep2 # ops2) = Inr data2"
  then have l: "length d1 = 16" "length d2 = 16" by (simp_all add: kMaxInline_def)
  from a have r: "apply_tree_ops ndebug (make_tree d1 rep1) ops1 = Inr data1"
      "apply_tree_ops ndebug (make_tree d2 rep2) ops2 = Inr data2" by simp_all
  have w1: "length data1 = 16 \<and> is_tree data1"
    by (rule apply_tree_ops_is_tree [OF make_tree_is_tree [OF l(1)] r(1)])
  have w2: "length data2 = 16 \<and> is_tree data2"
    by (rule apply_tree_ops_is_tree [OF make_tree_is_tree [OF l(2)] r(2)])
  have f1: "is_tree data1" "odd (Rep_cordz_info data1)"
    using w1 cordz_info_odd_iff [of data1] by simp_all
  have f2: "is_tree data2" "odd (Rep_cordz_info data2)"
    using w2 cordz_info_odd_iff [of data2] by simp_all
  have "is_either_profiled ndebug data1 data2 =
      Inr (Rep_cordz_info data1 \<noteq> kNullCordzInfo \<or> Rep_cordz_info data2 \<noteq> kNullCordzInfo)"
    using f1(1) f2(1) or_eq_1_iff [OF f1(2) f2(2)]
    by (simp add: is_either_profiled_def kNullCordzInfo_eq)
  then show "is_tree data1 \<and> is_tree data2 \<and>
   (\<exists>p1 p2. is_profiled ndebug data1 = Inr p1 \<and> is_profiled ndebug data2 = Inr p2 \<and>
       is_either_profiled ndebug data1 data2 = Inr (p1 \<or> p2))"
    using f1(1) f2(1) by (simp add: is_profiled_def)
qed

theorem is_either_profiled_is_disjunction_witness:
  "(\<exists>data1 data2.
      apply_tree_ops False (replicate 16 0) [MakeTree 4096, SetCordzInfo 8192] = Inr data1 \<and>
      apply_tree_ops False (replicate 16 0) [MakeTree 4096, SetCordzInfo 8192, ClearCordzInfo]
        = Inr data2 \<and>
      is_tree data1 \<and> is_tree data2 \<and>
      is_profiled False data1 = Inr True \<and> is_profiled False data2 = Inr False \<and>
      is_either_profiled False data1 data2 = Inr True)"
proof -
  have m: "make_tree (replicate 16 0) 4096 = store64 1 @ store64 4096"
    by (simp add: make_tree_def Rep_make_tree_def Rep_set_cordz_info_def Rep_set_tree_def
        write_bytes_def length_store64 kNullCordzInfo_eq)
  have t: "is_tree (store64 w @ r) \<longleftrightarrow> odd w" for w r
    by (simp add: is_tree_odd nth_append length_store64 hd_store64 even_ucast_word)
  have c: "Rep_cordz_info (store64 w @ r) = w" for w r
    by (simp add: Rep_cordz_info_def length_store64 load64_store64)
  have s: "Rep_set_cordz_info (store64 v @ store64 p) w = store64 w @ store64 p" for v p w
    by (simp add: Rep_set_cordz_info_def write_bytes_def length_store64)
  have 1: "apply_tree_ops False (replicate 16 0) [MakeTree 4096, SetCordzInfo 8192]
      = Inr (store64 8193 @ store64 4096)"
    by (simp add: m t s set_cordz_info_def Let_def)
  have 2: "apply_tree_ops False (replicate 16 0) [MakeTree 4096, SetCordzInfo 8192, ClearCordzInfo]
      = Inr (store64 1 @ store64 4096)"
    by (simp add: m t s set_cordz_info_def clear_cordz_info_def Let_def kNullCordzInfo_eq)
  have 3: "is_profiled False (store64 8193 @ store64 4096) = Inr True"
      "is_profiled False (store64 1 @ store64 4096) = Inr False"
    by (simp_all add: is_profiled_def t c kNullCordzInfo_eq)
  have l: "length (replicate 16 (0 :: byte)) = kMaxInline + 1" by (simp add: kMaxInline_def)
  from is_either_profiled_is_disjunction
    [of "replicate 16 0" "replicate 16 0" False 4096 "[SetCordzInfo 8192]"
      "store64 8193 @ store64 4096" 4096 "[SetCordzInfo 8192, ClearCordzInfo]"
      "store64 1 @ store64 4096"] l 1 2 3
  show ?thesis by auto
qed

end
